theory Spec2Isabelle
  imports Complex_Main "HOL-Library.Multiset"
begin

section \<open>Seminar topic solver: the preference table loader and the solver wrapper\<close>

text \<open>
  The development embeds \<^verbatim>\<open>parse_csv\<close> and \<^verbatim>\<open>solve_assignment_problem\<close> of
  \<^verbatim>\<open>seminar_topic_solver.py\<close>. The table is taken after \<^verbatim>\<open>csv.reader\<close> has split the
  file: a list of rows, each a list of cells. The module-level variable
  \<^verbatim>\<open>penalize_below_n_preferences\<close> is the explicit parameter \<open>pen\<close>; the command line
  declares it with \<^verbatim>\<open>type=int\<close>, so it ranges over all integers.

  The source has no exception classes of its own. Every failure of the loader is one of
  two Python exceptions: \<^verbatim>\<open>IndexError\<close> (an index past the end of a list) and
  \<^verbatim>\<open>ValueError\<close> (raised by \<^verbatim>\<open>int\<close> on a bad literal and by the three explicit
  \<^verbatim>\<open>raise\<close> statements). The model keeps the two classes and tells the four
  \<^verbatim>\<open>ValueError\<close> messages apart by a constructor. \<^verbatim>\<open>OverflowError\<close> is the exception
  of the wrapper's float arithmetic, which the loader never raises.
\<close>

subsection \<open>Errors\<close>

datatype message =
    InvalidLiteral string
  | LessThanOne int string string
  | NotUnique int string string
  | NotSequence string

datatype error = IndexError | ValueError message | OverflowError

subsection \<open>The builtin \<open>int\<close> on strings\<close>

text \<open>
  A model of Python's \<^verbatim>\<open>int(s)\<close> for base 10. A \<open>char\<close> stands for a code point below
  256. Surrounding whitespace is stripped: the six ASCII characters that C's
  \<^verbatim>\<open>isspace\<close> knows, and the two other whitespace code points below 256 (133 and 160);
  the separators 28 to 31 are not stripped. Then one sign is allowed, then digits, where
  single underscores may separate digits. Anything else is rejected (\<open>None\<close> stands
  for the \<^verbatim>\<open>ValueError\<close>), and so is a literal of more than 4300 digits, the default
  limit of the interpreter. Code points from 256 on are not covered. No general theorem
  below depends on which strings are accepted, only on the result.
\<close>

definition is_space :: "char \<Rightarrow> bool" where
  "is_space c = (of_char c \<in> {9, 10, 11, 12, 13, 32, 133, 160 :: nat})"

definition is_digit :: "char \<Rightarrow> bool" where
  "is_digit c = (48 \<le> (of_char c :: nat) \<and> (of_char c :: nat) \<le> 57)"

definition digit_val :: "char \<Rightarrow> nat" where
  "digit_val c = of_char c - 48"

definition strip :: "string \<Rightarrow> string" where
  "strip s = rev (dropWhile is_space (rev (dropWhile is_space s)))"

fun digits_value :: "nat \<Rightarrow> string \<Rightarrow> nat option" where
  "digits_value acc [] = Some acc"
| "digits_value acc (c # cs) =
     (if is_digit c then digits_value (10 * acc + digit_val c) cs
      else if c = CHR ''_'' then
        (case cs of
           [] \<Rightarrow> None
         | d # _ \<Rightarrow> if is_digit d then digits_value acc cs else None)
      else None)"

definition unsigned_int :: "string \<Rightarrow> nat option" where
  "unsigned_int body =
     (case body of
        [] \<Rightarrow> None
      | d # _ \<Rightarrow>
          if is_digit d then
            (case digits_value 0 body of
               None \<Rightarrow> None
             | Some n \<Rightarrow> if 4300 < length (filter is_digit body) then None else Some n)
          else None)"

definition py_int :: "string \<Rightarrow> int option" where
  "py_int s =
     (case strip s of
        [] \<Rightarrow> None
      | c # cs \<Rightarrow>
          if c = CHR ''-'' then map_option (\<lambda>n. - int n) (unsigned_int cs)
          else if c = CHR ''+'' then map_option int (unsigned_int cs)
          else map_option int (unsigned_int (c # cs)))"

subsection \<open>The loader, \<open>parse_csv\<close>\<close>

text \<open>
  Per student the source keeps two lists: \<^verbatim>\<open>unspecified_preferences[student]\<close>, the topic
  indices with an empty cell, and \<^verbatim>\<open>specified_preferences[student]\<close>, the pairs
  (topic index, value). A \<open>prefs\<close> value is that pair of lists for one student.
\<close>

type_synonym prefs = "nat list \<times> (nat \<times> int) list"

text \<open>\<^verbatim>\<open>students = [row[0] for row in fields[1:]]\<close>: an empty row raises.\<close>

fun first_column :: "string list list \<Rightarrow> error + string list" where
  "first_column [] = Inr []"
| "first_column (row # rows) =
     (case row of
        [] \<Rightarrow> Inl IndexError
      | c # _ \<Rightarrow>
          (case first_column rows of
             Inl e \<Rightarrow> Inl e
           | Inr names \<Rightarrow> Inr (c # names)))"

text \<open>
  The body of the inner loop (lines 98 to 111), for one topic index: the cell
  \<^verbatim>\<open>fields[student+1][topic+1]\<close> is read, which raises when the row is too short.
\<close>

definition read_cell :: "string list \<Rightarrow> string \<Rightarrow> string list \<Rightarrow> nat \<Rightarrow> prefs \<Rightarrow> error + prefs" where
  "read_cell topics sname row topic st =
     (case st of (unspecified, specified) \<Rightarrow>
        if length row \<le> topic + 1 then Inl IndexError
        else
          let preference_string = row ! (topic + 1) in
          if preference_string = [] then Inr (unspecified @ [topic], specified)
          else
            (case py_int preference_string of
               None \<Rightarrow> Inl (ValueError (InvalidLiteral preference_string))
             | Some p \<Rightarrow>
                 if p < 1 then Inl (ValueError (LessThanOne p sname (topics ! topic)))
                 else if p \<in> set (map snd specified)
                   then Inl (ValueError (NotUnique p sname (topics ! topic)))
                 else Inr (unspecified, specified @ [(topic, p)])))"

text \<open>The inner loop, \<^verbatim>\<open>for topic in range(len(topics))\<close>, over the list of indices.\<close>

fun read_topics :: "string list \<Rightarrow> string \<Rightarrow> string list \<Rightarrow> nat list \<Rightarrow> prefs \<Rightarrow> error + prefs" where
  "read_topics topics sname row [] st = Inr st"
| "read_topics topics sname row (t # ts) st =
     (case read_cell topics sname row t st of
        Inl e \<Rightarrow> Inl e
      | Inr st' \<Rightarrow> read_topics topics sname row ts st')"

text \<open>
  The outer loop, \<^verbatim>\<open>for student in range(len(students))\<close>, over the students paired with
  their rows. Each student starts from two empty lists; the first exception ends the loop.
\<close>

fun read_students :: "string list \<Rightarrow> (string \<times> string list) list \<Rightarrow> error + prefs list" where
  "read_students topics [] = Inr []"
| "read_students topics ((sname, row) # rest) =
     (case read_topics topics sname row [0..<length topics] ([], []) of
        Inl e \<Rightarrow> Inl e
      | Inr st \<Rightarrow>
          (case read_students topics rest of
             Inl e \<Rightarrow> Inl e
           | Inr sts \<Rightarrow> Inr (st # sts)))"

text \<open>
  The sequence check (lines 115 to 118). The source divides with \<^verbatim>\<open>/\<close>, which is true
  division; the model compares over the reals, where the quotient is exact. The float
  quotient of the source is exact as well while \<open>k (k + 1)\<close> stays below \<open>2 ^ 53\<close>.
\<close>

definition sequence_ok :: "(nat \<times> int) list \<Rightarrow> bool" where
  "sequence_ok specified =
     (let preference_sum = sum_list (map snd specified);
          preference_count = int (length specified);
          expected_preference_sum = real_of_int (preference_count * (preference_count + 1)) / 2
      in expected_preference_sum = real_of_int preference_sum)"

fun check_sequences :: "(string \<times> prefs) list \<Rightarrow> error + unit" where
  "check_sequences [] = Inr ()"
| "check_sequences ((sname, st) # rest) =
     (if sequence_ok (snd st) then check_sequences rest
      else Inl (ValueError (NotSequence sname)))"

text \<open>\<^verbatim>\<open>max\<close> of a list; the source calls it on a non-empty list only.\<close>

fun py_max :: "int list \<Rightarrow> int" where
  "py_max [] = 0"
| "py_max (x # xs) = foldl max x xs"

text \<open>Lines 125 to 131: the value given to the unspecified topics of one student.\<close>

definition preference_value_for_unspecified :: "int \<Rightarrow> (nat \<times> int) list \<Rightarrow> int" where
  "preference_value_for_unspecified pen specified =
     (if length specified > 0 then py_max (map snd specified) + pen else pen + 1)"

text \<open>Lines 132 to 135: the triples of one student, the specified ones first.\<close>

definition merge_student :: "int \<Rightarrow> nat \<Rightarrow> prefs \<Rightarrow> (nat \<times> nat \<times> int) list" where
  "merge_student pen student st =
     (case st of (unspecified, specified) \<Rightarrow>
        map (\<lambda>(topic, preference). (student, topic, preference))
          (specified @
             map (\<lambda>unspecified_topic.
                    (unspecified_topic, preference_value_for_unspecified pen specified))
               unspecified))"

fun merge_students :: "int \<Rightarrow> nat \<Rightarrow> prefs list \<Rightarrow> (nat \<times> nat \<times> int) list" where
  "merge_students pen student [] = []"
| "merge_students pen student (st # sts) =
     merge_student pen student st @ merge_students pen (Suc student) sts"

definition parse_csv ::
  "int \<Rightarrow> string list list \<Rightarrow> error + (string list \<times> string list \<times> (nat \<times> nat \<times> int) list)" where
  "parse_csv pen fields =
     (case fields of
        [] \<Rightarrow> Inl IndexError
      | header # rows \<Rightarrow>
          let topics = tl header in
          (case first_column rows of
             Inl e \<Rightarrow> Inl e
           | Inr students \<Rightarrow>
               (case read_students topics (zip students rows) of
                  Inl e \<Rightarrow> Inl e
                | Inr sts \<Rightarrow>
                    (case check_sequences (zip students sts) of
                       Inl e \<Rightarrow> Inl e
                     | Inr _ \<Rightarrow> Inr (students, topics, merge_students pen 0 sts)))))"

subsection \<open>The solver wrapper, \<open>solve_assignment_problem\<close>\<close>

text \<open>
  The wrapper computes with \<^verbatim>\<open>numpy\<close> floats (\<^verbatim>\<open>float64\<close>). That arithmetic is not part of
  the program and rounds; it is taken as a parameter, over a type \<open>'f\<close> of float values:
  \<^item> \<open>np_zero\<close>: the cell of \<^verbatim>\<open>np.zeros\<close>;
  \<^item> \<open>np_float\<close>: the conversion of a Python integer that line 44 stores into the
    array (it rounds from \<open>2 ^ 53\<close> on and raises \<^verbatim>\<open>OverflowError\<close> beyond the range of a
    float);
  \<^item> \<open>np_sum\<close>: \<^verbatim>\<open>.sum()\<close> of an array of floats (line 56);
  \<^item> \<open>np_divide\<close>: the quotient of a float by \<^verbatim>\<open>len(students)\<close> (line 58; not a number
    without students);
  \<^item> \<open>np_greater\<close>: the comparison of a float with the threshold, a Python integer
    (line 61);
  \<^item> \<open>format_d\<close>: the integer that \<^verbatim>\<open>"%d" %\<close> prints for a float (line 57), which raises
    when the float is not finite.
\<close>

datatype 'f numpy =
  Numpy (np_zero: 'f) (np_float: "int \<Rightarrow> error + 'f") (np_sum: "'f list \<Rightarrow> 'f")
    (np_divide: "'f \<Rightarrow> nat \<Rightarrow> 'f") (np_greater: "'f \<Rightarrow> int \<Rightarrow> error + bool")
    (format_d: "'f \<Rightarrow> error + int")

text \<open>
  The cost matrix: \<^verbatim>\<open>len(students)\<close> rows of \<^verbatim>\<open>len(topics)\<close> zeros, into which the triples
  are written in list order, each cost converted to a float. The indices are natural
  numbers; an index past the end raises.
\<close>

type_synonym 'f matrix = "'f list list"

definition zeros :: "'f numpy \<Rightarrow> nat \<Rightarrow> nat \<Rightarrow> 'f matrix" where
  "zeros np n m = replicate n (replicate m (np_zero np))"

fun fill_matrix :: "'f numpy \<Rightarrow> 'f matrix \<Rightarrow> (nat \<times> nat \<times> int) list \<Rightarrow> error + 'f matrix" where
  "fill_matrix np cost_matrix [] = Inr cost_matrix"
| "fill_matrix np cost_matrix ((student, topic, cost) # rest) =
     (if student < length cost_matrix \<and> topic < length (cost_matrix ! student)
      then (case np_float np cost of
              Inl e \<Rightarrow> Inl e
            | Inr x \<Rightarrow>
                fill_matrix np (cost_matrix[student := (cost_matrix ! student)[topic := x]]) rest)
      else Inl IndexError)"

definition build_cost_matrix ::
  "'f numpy \<Rightarrow> string list \<Rightarrow> string list \<Rightarrow> (nat \<times> nat \<times> int) list \<Rightarrow> error + 'f matrix" where
  "build_cost_matrix np students topics preferences =
     fill_matrix np (zeros np (length students) (length topics)) preferences"

text \<open>
  \<^verbatim>\<open>cost_matrix[row_indices, col_indices]\<close>: the cells at the matched positions. The two
  index arrays that the matching routine returns have the same length and are read
  position by position, so the model holds them as one list of pairs.
\<close>

fun matched_cells :: "'f matrix \<Rightarrow> (nat \<times> nat) list \<Rightarrow> error + 'f list" where
  "matched_cells cost_matrix [] = Inr []"
| "matched_cells cost_matrix ((student_index, topic_index) # rest) =
     (if student_index < length cost_matrix \<and> topic_index < length (cost_matrix ! student_index)
      then (case matched_cells cost_matrix rest of
              Inl e \<Rightarrow> Inl e
            | Inr cs \<Rightarrow> Inr (cost_matrix ! student_index ! topic_index # cs))
      else Inl IndexError)"

text \<open>The loop of lines 65 to 68: one line (student label, topic label) per matched pair.\<close>

fun solution_lines ::
  "string list \<Rightarrow> string list \<Rightarrow> (nat \<times> nat) list \<Rightarrow> error + (string \<times> string) list" where
  "solution_lines students topics [] = Inr []"
| "solution_lines students topics ((student_index, topic_index) # rest) =
     (if student_index < length students \<and> topic_index < length topics
      then (case solution_lines students topics rest of
              Inl e \<Rightarrow> Inl e
            | Inr ls \<Rightarrow> Inr ((students ! student_index, topics ! topic_index) # ls))
      else Inl IndexError)"

text \<open>
  What the wrapper prints when it runs to its end: the total cost as \<^verbatim>\<open>"%d"\<close> shows it,
  the average cost (a float), whether the warning line appears, and the assignment
  lines. An exception ends the program; the lines printed before it are not part of the
  result.
\<close>

datatype 'f report =
  Report (total_cost: int) (average_cost: 'f) (warning: bool)
    (solution: "(string \<times> string) list")

text \<open>
  The matching routine \<^verbatim>\<open>scipy.optimize.linear_sum_assignment\<close> is not part of the
  program either; it is the parameter \<open>solver\<close>, from the cost matrix to the matched
  pairs (or an exception of its own).
\<close>

definition solve_assignment_problem ::
  "'f numpy \<Rightarrow> ('f matrix \<Rightarrow> error + (nat \<times> nat) list) \<Rightarrow> int \<Rightarrow> string list \<Rightarrow> string list \<Rightarrow>
     (nat \<times> nat \<times> int) list \<Rightarrow> error + 'f report" where
  "solve_assignment_problem np solver pen students topics preferences =
     (case build_cost_matrix np students topics preferences of
        Inl e \<Rightarrow> Inl e
      | Inr cost_matrix \<Rightarrow>
          (case solver cost_matrix of
             Inl e \<Rightarrow> Inl e
           | Inr pairs \<Rightarrow>
               (case matched_cells cost_matrix pairs of
                  Inl e \<Rightarrow> Inl e
                | Inr cells \<Rightarrow>
                    let total = np_sum np cells in
                    (case format_d np total of
                       Inl e \<Rightarrow> Inl e
                     | Inr printed_total \<Rightarrow>
                         let average = np_divide np total (length students) in
                         (case np_greater np average pen of
                            Inl e \<Rightarrow> Inl e
                          | Inr warn \<Rightarrow>
                              (case solution_lines students topics pairs of
                                 Inl e \<Rightarrow> Inl e
                               | Inr ls \<Rightarrow> Inr (Report printed_total average warn ls)))))))"

text \<open>Lines 160 and 161: the program loads the table and hands the result to the wrapper.\<close>

definition run ::
  "'f numpy \<Rightarrow> ('f matrix \<Rightarrow> error + (nat \<times> nat) list) \<Rightarrow> int \<Rightarrow> string list list \<Rightarrow>
     error + 'f report" where
  "run np solver pen fields =
     (case parse_csv pen fields of
        Inl e \<Rightarrow> Inl e
      | Inr (students, topics, preferences) \<Rightarrow>
          solve_assignment_problem np solver pen students topics preferences)"

subsection \<open>Vocabulary for the statements\<close>

text \<open>
  What one pass of the inner loop over the topic indices \<open>ts\<close> reads from a row: the
  values of the non-empty cells, and whether a single cell passes the checks of lines
  98 to 109 on its own (the uniqueness check apart).
\<close>

definition cell_values :: "string list \<Rightarrow> nat list \<Rightarrow> int list" where
  "cell_values row ts = map (\<lambda>t. the (py_int (row ! Suc t))) (filter (\<lambda>t. row ! Suc t \<noteq> []) ts)"

definition cell_ok :: "string list \<Rightarrow> nat \<Rightarrow> bool" where
  "cell_ok row t = (Suc t < length row \<and>
     (row ! Suc t \<noteq> [] \<longrightarrow> (\<exists>p. py_int (row ! Suc t) = Some p \<and> 1 \<le> p)))"


text \<open>
  The non-empty cells among the \<open>m\<close> topic columns of a row, as strings and as numbers:
  what the student of that row specified.
\<close>

definition specified_cells :: "nat \<Rightarrow> string list \<Rightarrow> string list" where
  "specified_cells m row = filter (\<lambda>c. c \<noteq> []) (take m (tl row))"

definition specified_values :: "nat \<Rightarrow> string list \<Rightarrow> int list" where
  "specified_values m row = map (the \<circ> py_int) (specified_cells m row)"

text \<open>The two lists the loader holds for a row once the first loop is through it.\<close>

definition row_state :: "nat \<Rightarrow> string list \<Rightarrow> prefs" where
  "row_state m row =
     (filter (\<lambda>t. row ! Suc t = []) [0..<m],
      map (\<lambda>t. (t, the (py_int (row ! Suc t)))) (filter (\<lambda>t. row ! Suc t \<noteq> []) [0..<m]))"

text \<open>
  A row passes all checks of the loader: it has a cell for every topic, every specified
  cell is an integer that is at least one, no value occurs twice, and the values sum to
  \<open>k (k + 1) / 2\<close> for \<open>k\<close> specified cells.
\<close>

definition row_accepted :: "nat \<Rightarrow> string list \<Rightarrow> bool" where
  "row_accepted m row \<longleftrightarrow>
     m < length row \<and>
     (\<forall>c\<in>set (specified_cells m row). \<exists>p. py_int c = Some p \<and> 1 \<le> p) \<and>
     distinct (specified_values m row) \<and>
     2 * sum_list (specified_values m row) =
       int (length (specified_values m row)) * (int (length (specified_values m row)) + 1)"

text \<open>A row passes the first loop: all checks of \<open>row_accepted\<close> but the sum.\<close>

definition row_readable :: "nat \<Rightarrow> string list \<Rightarrow> bool" where
  "row_readable m row \<longleftrightarrow>
     m < length row \<and>
     (\<forall>c\<in>set (specified_cells m row). \<exists>p. py_int c = Some p \<and> 1 \<le> p) \<and>
     distinct (specified_values m row)"

abbreviation example_table :: "string list list" where
  "example_table \<equiv>
     [[''X'', ''A'', ''B'', ''C''],
      [''s1'', ''1'', ''2'', ''3''],
      [''s2'', '''', ''1'', ''''],
      [''s3'', ''2'', '''', ''1'']]"

abbreviation example_preferences :: "(nat \<times> nat \<times> int) list" where
  "example_preferences \<equiv>
     [(0, 0, 1), (0, 1, 2), (0, 2, 3),
      (1, 1, 1), (1, 0, 4), (1, 2, 4),
      (2, 0, 2), (2, 2, 1), (2, 1, 5)]"

text \<open>
  The costs of the worked tables are small integers, on which float arithmetic is exact:
  the conversion, the sum and the quotients that occur there are not rounded.
  \<open>small_floats\<close> gives the results of \<^verbatim>\<open>numpy\<close> on such values, with the float values as
  real numbers; it is used for the worked tables only.
\<close>

abbreviation small_floats :: "real numpy" where
  "small_floats \<equiv>
     Numpy 0 (\<lambda>c. Inr (real_of_int c)) sum_list (\<lambda>x n. x / real n)
       (\<lambda>a p. Inr (real_of_int p < a)) (\<lambda>x. Inr (if 0 \<le> x then \<lfloor>x\<rfloor> else \<lceil>x\<rceil>))"

section \<open>Properties of the loader\<close>

subsection \<open>The inner loop\<close>

lemma cell_values_Nil [simp]: "cell_values row [] = []"
  by (simp add: cell_values_def)

lemma cell_values_Cons:
  "cell_values row (t # ts) =
     (if row ! Suc t = [] then cell_values row ts
      else the (py_int (row ! Suc t)) # cell_values row ts)"
  by (simp add: cell_values_def)

lemma read_cell_Inr_iff:
  "read_cell topics sname row t (un, sp) = Inr st' \<longleftrightarrow>
     cell_ok row t \<and>
     (if row ! Suc t = [] then st' = (un @ [t], sp)
      else the (py_int (row ! Suc t)) \<notin> snd ` set sp \<and>
           st' = (un, sp @ [(t, the (py_int (row ! Suc t)))]))"
  by (auto simp: read_cell_def cell_ok_def Let_def split: option.splits)

lemma read_topics_Inr:
  "read_topics topics sname row ts (un, sp) = Inr st' \<Longrightarrow>
     st' = (un @ filter (\<lambda>t. row ! Suc t = []) ts,
            sp @ map (\<lambda>t. (t, the (py_int (row ! Suc t)))) (filter (\<lambda>t. row ! Suc t \<noteq> []) ts))"
proof (induction ts arbitrary: un sp)
  case Nil
  then show ?case by simp
next
  case (Cons t ts)
  show ?case
  proof (cases "read_cell topics sname row t (un, sp)")
    case (Inl e)
    with Cons.prems show ?thesis by simp
  next
    case (Inr st1)
    obtain un1 sp1 where st1: "st1 = (un1, sp1)" by (cases st1)
    from Inr Cons.prems st1 have "read_topics topics sname row ts (un1, sp1) = Inr st'"
      by simp
    from Cons.IH [OF this] Inr st1 show ?thesis
      by (auto simp: read_cell_Inr_iff split: if_splits)
  qed
qed

lemma read_topics_accepts_iff:
  "(\<exists>st'. read_topics topics sname row ts (un, sp) = Inr st') \<longleftrightarrow>
     (\<forall>t\<in>set ts. cell_ok row t) \<and> distinct (cell_values row ts) \<and>
     set (cell_values row ts) \<inter> snd ` set sp = {}"
proof (induction ts arbitrary: un sp)
  case Nil
  then show ?case by simp
next
  case (Cons t ts)
  show ?case
  proof (cases "read_cell topics sname row t (un, sp)")
    case (Inl e)
    have "\<not> (cell_ok row t \<and> (row ! Suc t \<noteq> [] \<longrightarrow> the (py_int (row ! Suc t)) \<notin> snd ` set sp))"
    proof
      assume a: "cell_ok row t \<and> (row ! Suc t \<noteq> [] \<longrightarrow> the (py_int (row ! Suc t)) \<notin> snd ` set sp)"
      have "\<exists>st'. read_cell topics sname row t (un, sp) = Inr st'"
        unfolding read_cell_Inr_iff using a by (cases "row ! Suc t = []") auto
      with Inl show False by simp
    qed
    with Inl show ?thesis
      by (auto simp: cell_values_Cons)
  next
    case (Inr st1)
    obtain un1 sp1 where st1: "st1 = (un1, sp1)" by (cases st1)
    from Inr st1 have ok: "cell_ok row t"
      and upd: "(if row ! Suc t = [] then (un1, sp1) = (un @ [t], sp)
      else the (py_int (row ! Suc t)) \<notin> snd ` set sp \<and>
           (un1, sp1) = (un, sp @ [(t, the (py_int (row ! Suc t)))]))"
      by (simp_all add: read_cell_Inr_iff)
    have "(\<exists>st'. read_topics topics sname row (t # ts) (un, sp) = Inr st') \<longleftrightarrow>
          (\<exists>st'. read_topics topics sname row ts (un1, sp1) = Inr st')"
      using Inr st1 by simp
    also have "\<dots> \<longleftrightarrow> (\<forall>t\<in>set ts. cell_ok row t) \<and> distinct (cell_values row ts) \<and>
       set (cell_values row ts) \<inter> snd ` set sp1 = {}"
      by (rule Cons.IH)
    also have "\<dots> \<longleftrightarrow> (\<forall>t\<in>set (t # ts). cell_ok row t) \<and> distinct (cell_values row (t # ts)) \<and>
       set (cell_values row (t # ts)) \<inter> snd ` set sp = {}"
      using ok upd by (auto simp: cell_values_Cons split: if_splits)
    finally show ?thesis .
  qed
qed

lemma take_tl_map_nth: "m < length row \<Longrightarrow> take m (tl row) = map (\<lambda>t. row ! Suc t) [0..<m]"
  by (rule nth_equalityI) (auto simp: nth_tl)

lemma cell_values_upt:
  "m < length row \<Longrightarrow> cell_values row [0..<m] = specified_values m row"
  by (simp add: cell_values_def specified_values_def specified_cells_def take_tl_map_nth
      filter_map comp_def)

subsection \<open>The student column and the outer loop\<close>

lemma first_column_Inl: "first_column rows = Inl e \<Longrightarrow> e = IndexError \<and> [] \<in> set rows"
  by (induction rows arbitrary: e) (auto split: list.splits sum.splits)

lemma first_column_Inr: "first_column rows = Inr names \<Longrightarrow> [] \<notin> set rows \<and> names = map hd rows"
  by (induction rows arbitrary: names) (auto split: list.splits sum.splits)

lemma read_students_Inr:
  "read_students topics nrs = Inr sts \<Longrightarrow>
     list_all2 (\<lambda>nr st. read_topics topics (fst nr) (snd nr) [0..<length topics] ([], []) = Inr st) nrs sts"
proof (induction nrs arbitrary: sts)
  case Nil
  then show ?case by simp
next
  case (Cons nr nrs)
  obtain n r where nr: "nr = (n, r)" by (cases nr)
  from Cons.prems show ?case
    unfolding nr by (auto split: sum.splits dest: Cons.IH)
qed

lemma read_students_Inr_conv:
  "list_all2 (\<lambda>nr st. read_topics topics (fst nr) (snd nr) [0..<length topics] ([], []) = Inr st) nrs sts
     \<Longrightarrow> read_students topics nrs = Inr sts"
proof (induction nrs arbitrary: sts)
  case Nil
  then show ?case by simp
next
  case (Cons nr nrs)
  obtain n r where nr: "nr = (n, r)" by (cases nr)
  from Cons.prems obtain st sts' where sts: "sts = st # sts'"
    by (cases sts) auto
  from Cons.prems show ?case
    unfolding nr sts by (auto dest: Cons.IH)
qed

lemma read_students_Inr_iff:
  "read_students topics nrs = Inr sts \<longleftrightarrow>
     list_all2 (\<lambda>nr st. read_topics topics (fst nr) (snd nr) [0..<length topics] ([], []) = Inr st) nrs sts"
  using read_students_Inr read_students_Inr_conv by blast

subsection \<open>The sequence check\<close>

lemma sequence_ok_iff:
  "sequence_ok sp \<longleftrightarrow> 2 * sum_list (map snd sp) = int (length sp) * (int (length sp) + 1)"
proof -
  have "real_of_int (int (length sp) * (int (length sp) + 1)) / 2 = real_of_int (sum_list (map snd sp))
        \<longleftrightarrow> real_of_int (int (length sp) * (int (length sp) + 1)) = real_of_int (2 * sum_list (map snd sp))"
    by (simp add: field_simps)
  also have "\<dots> \<longleftrightarrow> int (length sp) * (int (length sp) + 1) = 2 * sum_list (map snd sp)"
    by (rule of_int_eq_iff)
  finally show ?thesis
    by (auto simp: sequence_ok_def Let_def)
qed

lemma py_max_Max: "xs \<noteq> [] \<Longrightarrow> py_max xs = Max (set xs)"
proof (cases xs)
  case Nil
  assume "xs \<noteq> []" with Nil show ?thesis by simp
next
  case (Cons x ys)
  have "foldl max x ys = fold max ys x"
    by (simp add: foldl_conv_fold max.commute)
  then show ?thesis
    using Cons Max.set_eq_fold [of x ys] by simp
qed

lemma sum_upto_int: "2 * \<Sum>{1..int k} = int k * (int k + 1)"
proof (induction k)
  case 0
  then show ?case by simp
next
  case (Suc k)
  have "{1..int (Suc k)} = insert (int k + 1) {1..int k}"
    by auto
  then have "\<Sum>{1..int (Suc k)} = (int k + 1) + \<Sum>{1..int k}"
    by simp
  with Suc show ?case by (simp add: algebra_simps)
qed

lemma sum_ge_of_distinct_pos:
  fixes A :: "int set"
  assumes fin: "finite A" and pos: "\<forall>x\<in>A. 1 \<le> x" and k: "card A = k"
  shows "(2 * \<Sum>A = int k * (int k + 1)) \<longleftrightarrow> A = {1..int k}"
proof
  assume "A = {1..int k}"
  then show "2 * \<Sum>A = int k * (int k + 1)" by (simp add: sum_upto_int)
next
  assume eq: "2 * \<Sum>A = int k * (int k + 1)"
  let ?B = "{1..int k}"
  show "A = ?B"
  proof (rule ccontr)
    assume ne: "A \<noteq> ?B"
    have cardB: "card ?B = k" by simp
    have cA: "card (A - ?B) = card A - card (A \<inter> ?B)"
      using fin by (simp add: card_Diff_subset_Int)
    have cB: "card (?B - A) = card ?B - card (A \<inter> ?B)"
      by (simp add: card_Diff_subset_Int Int_commute)
    from cA cB k cardB have ceq: "card (A - ?B) = card (?B - A)" by simp
    have "A - ?B \<noteq> {}"
    proof
      assume "A - ?B = {}"
      then have "A \<subseteq> ?B" by blast
      with k cardB have "A = ?B" by (intro card_subset_eq) auto
      with ne show False by contradiction
    qed
    then have dpos: "0 < card (A - ?B)"
      using fin by (simp add: card_gt_0_iff)
    have lo: "of_nat (card (A - ?B)) * (int k + 1) \<le> \<Sum>(A - ?B)"
      using sum_bounded_below [of "A - ?B" "int k + 1" "\<lambda>x. x"] pos by force
    have hi: "\<Sum>(?B - A) \<le> of_nat (card (?B - A)) * int k"
      using sum_bounded_above [of "?B - A" "\<lambda>x. x" "int k"] by force
    have "of_nat (card (?B - A)) * int k < of_nat (card (A - ?B)) * (int k + 1)"
      using dpos ceq by (simp add: algebra_simps)
    with lo hi have lt: "\<Sum>(?B - A) < \<Sum>(A - ?B)" by linarith
    have sA: "\<Sum>A = \<Sum>(A \<inter> ?B) + \<Sum>(A - ?B)"
      using fin sum.Int_Diff [of A "\<lambda>x. x" ?B] by simp
    have sB: "\<Sum>?B = \<Sum>(A \<inter> ?B) + \<Sum>(?B - A)"
      using sum.Int_Diff [of ?B "\<lambda>x. x" A] by (simp add: Int_commute)
    from sA sB lt have "\<Sum>?B < \<Sum>A" by linarith
    with eq sum_upto_int [of k] show False by linarith
  qed
qed

lemma sequence_values_iff:
  assumes "distinct xs" "\<forall>x\<in>set xs. (1::int) \<le> x"
  shows "2 * sum_list xs = int (length xs) * (int (length xs) + 1) \<longleftrightarrow> set xs = {1..int (length xs)}"
proof -
  have "sum_list xs = \<Sum>(set xs)"
    using sum_list_distinct_conv_sum_set [OF assms(1), of "\<lambda>x. x"] by simp
  moreover have "card (set xs) = length xs"
    using assms(1) by (simp add: distinct_card)
  ultimately show ?thesis
    using sum_ge_of_distinct_pos [of "set xs" "length xs"] assms(2) by simp
qed

subsection \<open>Accepted rows and accepted tables\<close>

lemma mem_specified_cells:
  assumes "m < length row"
  shows "c \<in> set (specified_cells m row) \<longleftrightarrow> (\<exists>t<m. c = row ! Suc t \<and> c \<noteq> [])"
proof -
  have "set (take m (tl row)) = (\<lambda>t. row ! Suc t) ` {0..<m}"
    by (simp add: take_tl_map_nth [OF assms])
  then show ?thesis
    unfolding specified_cells_def by (simp add: image_iff) (metis atLeastLessThan_iff zero_le)
qed

lemma cells_ok_upt:
  assumes "row \<noteq> []"
  shows "(\<forall>t\<in>set [0..<m]. cell_ok row t) \<longleftrightarrow>
     m < length row \<and> (\<forall>c\<in>set (specified_cells m row). \<exists>p. py_int c = Some p \<and> 1 \<le> p)"
proof (cases "m < length row")
  case True
  have "(\<forall>t\<in>set [0..<m]. cell_ok row t) \<longleftrightarrow>
        (\<forall>t<m. row ! Suc t \<noteq> [] \<longrightarrow> (\<exists>p. py_int (row ! Suc t) = Some p \<and> 1 \<le> p))"
    using True by (auto simp: cell_ok_def)
  also have "\<dots> \<longleftrightarrow> (\<forall>c\<in>set (specified_cells m row). \<exists>p. py_int c = Some p \<and> 1 \<le> p)"
    unfolding Ball_def mem_specified_cells [OF True] by blast
  finally show ?thesis using True by simp
next
  case False
  show ?thesis
  proof (cases m)
    case 0
    with assms False show ?thesis by simp
  next
    case (Suc n)
    with False have "\<not> cell_ok row n" by (simp add: cell_ok_def)
    with Suc False show ?thesis by auto
  qed
qed

lemma snd_row_state:
  "m < length row \<Longrightarrow> map snd (snd (row_state m row)) = specified_values m row"
  using cell_values_upt [of m row] by (simp add: row_state_def cell_values_def comp_def)

lemma read_topics_row_iff:
  assumes "row \<noteq> []"
  shows "read_topics topics sname row [0..<m] ([], []) = Inr st \<longleftrightarrow>
     m < length row \<and>
     (\<forall>c\<in>set (specified_cells m row). \<exists>p. py_int c = Some p \<and> 1 \<le> p) \<and>
     distinct (specified_values m row) \<and> st = row_state m row"
proof
  assume r: "read_topics topics sname row [0..<m] ([], []) = Inr st"
  then have "\<exists>st'. read_topics topics sname row [0..<m] ([], []) = Inr st'" by blast
  then have a: "(\<forall>t\<in>set [0..<m]. cell_ok row t)" and d: "distinct (cell_values row [0..<m])"
    unfolding read_topics_accepts_iff by simp_all
  from a have m: "m < length row"
    and v: "\<forall>c\<in>set (specified_cells m row). \<exists>p. py_int c = Some p \<and> 1 \<le> p"
    unfolding cells_ok_upt [OF assms] by simp_all
  from read_topics_Inr [OF r] have "st = row_state m row"
    by (simp add: row_state_def)
  with m v d show "m < length row \<and>
     (\<forall>c\<in>set (specified_cells m row). \<exists>p. py_int c = Some p \<and> 1 \<le> p) \<and>
     distinct (specified_values m row) \<and> st = row_state m row"
    by (simp add: cell_values_upt)
next
  assume h: "m < length row \<and>
     (\<forall>c\<in>set (specified_cells m row). \<exists>p. py_int c = Some p \<and> 1 \<le> p) \<and>
     distinct (specified_values m row) \<and> st = row_state m row"
  then have "(\<forall>t\<in>set [0..<m]. cell_ok row t)"
    unfolding cells_ok_upt [OF assms] by simp
  moreover from h have "distinct (cell_values row [0..<m])"
    by (simp add: cell_values_upt)
  ultimately have "\<exists>st'. read_topics topics sname row [0..<m] ([], []) = Inr st'"
    unfolding read_topics_accepts_iff by simp
  then obtain st' where r: "read_topics topics sname row [0..<m] ([], []) = Inr st'" ..
  from read_topics_Inr [OF r] have "st' = row_state m row"
    by (simp add: row_state_def)
  with r h show "read_topics topics sname row [0..<m] ([], []) = Inr st" by simp
qed

lemma read_students_rows_iff:
  assumes "[] \<notin> set rows"
  shows "read_students topics (zip (map hd rows) rows) = Inr sts \<longleftrightarrow>
     (\<forall>row\<in>set rows. row_readable (length topics) row) \<and>
     sts = map (row_state (length topics)) rows"
proof -
  have "read_students topics (zip (map hd rows) rows) = Inr sts \<longleftrightarrow>
    length sts = length rows \<and>
    (\<forall>i<length rows. read_topics topics (hd (rows ! i)) (rows ! i) [0..<length topics] ([], []) = Inr (sts ! i))"
    unfolding read_students_Inr_iff list_all2_conv_all_nth by auto
  also have "\<dots> \<longleftrightarrow> length sts = length rows \<and>
    (\<forall>i<length rows. row_readable (length topics) (rows ! i) \<and> sts ! i = row_state (length topics) (rows ! i))"
  proof -
    have p: "read_topics topics (hd (rows ! i)) (rows ! i) [0..<length topics] ([], []) = Inr (sts ! i)
        \<longleftrightarrow> row_readable (length topics) (rows ! i) \<and> sts ! i = row_state (length topics) (rows ! i)"
      if "i < length rows" for i
    proof -
      from that assms have "rows ! i \<noteq> []" by (metis nth_mem)
      then show ?thesis by (simp add: read_topics_row_iff row_readable_def)
    qed
    then show ?thesis by blast
  qed
  also have "\<dots> \<longleftrightarrow> (\<forall>row\<in>set rows. row_readable (length topics) row) \<and>
     sts = map (row_state (length topics)) rows"
    unfolding all_set_conv_all_nth list_eq_iff_nth_eq by auto
  finally show ?thesis .
qed

lemma check_sequences_zip:
  "length ns = length sts \<Longrightarrow>
     check_sequences (zip ns sts) = Inr u \<longleftrightarrow> (\<forall>st\<in>set sts. sequence_ok (snd st))"
  by (induction ns sts rule: list_induct2) (auto split: if_splits)

lemma row_accepted_iff:
  "row_accepted m row \<longleftrightarrow> row_readable m row \<and> sequence_ok (snd (row_state m row))"
proof (cases "m < length row")
  case True
  have e: "map snd (snd (row_state m row)) = specified_values m row"
    by (rule snd_row_state [OF True])
  have "length (map snd (snd (row_state m row))) = length (specified_values m row)"
    by (simp only: e)
  then have l: "length (snd (row_state m row)) = length (specified_values m row)"
    by simp
  show ?thesis
    unfolding row_accepted_def row_readable_def sequence_ok_iff e l by blast
next
  case False
  then show ?thesis by (simp add: row_accepted_def row_readable_def)
qed

lemma parse_csv_Inr_iff:
  "parse_csv pen (header # rows) = Inr res \<longleftrightarrow>
     (\<forall>row\<in>set rows. row_accepted (length (tl header)) row) \<and>
     res = (map hd rows, tl header,
            merge_students pen 0 (map (row_state (length (tl header))) rows))"
proof (cases "first_column rows")
  case (Inl e)
  from first_column_Inl [OF Inl] have "[] \<in> set rows" by simp
  moreover have "\<not> row_accepted (length (tl header)) []"
    by (simp add: row_accepted_def)
  ultimately have "\<not> (\<forall>row\<in>set rows. row_accepted (length (tl header)) row)" by blast
  with Inl show ?thesis by (simp add: parse_csv_def)
next
  case (Inr students)
  from first_column_Inr [OF Inr] have ne: "[] \<notin> set rows" and st: "students = map hd rows"
    by simp_all
  let ?m = "length (tl header)"
  show ?thesis
  proof (cases "read_students (tl header) (zip students rows)")
    case (Inl e)
    then have "\<not> (\<forall>row\<in>set rows. row_readable ?m row)"
      using read_students_rows_iff [OF ne, of "tl header"] st by auto
    then have "\<not> (\<forall>row\<in>set rows. row_accepted ?m row)"
      by (auto simp: row_accepted_iff)
    with Inl Inr show ?thesis by (simp add: parse_csv_def)
  next
    case rd: (Inr sts)
    then have rr: "\<forall>row\<in>set rows. row_readable ?m row" and sts: "sts = map (row_state ?m) rows"
      using read_students_rows_iff [OF ne, of "tl header" sts] st by auto
    have len: "length students = length sts" by (simp add: st sts)
    show ?thesis
    proof (cases "check_sequences (zip students sts)")
      case (Inl e)
      then have "\<not> (\<forall>s\<in>set sts. sequence_ok (snd s))"
        using check_sequences_zip [OF len, of "()"] by auto
      then have "\<not> (\<forall>row\<in>set rows. row_accepted ?m row)"
        by (auto simp: sts row_accepted_iff)
      with Inl rd Inr show ?thesis by (simp add: parse_csv_def)
    next
      case ok: (Inr u)
      then have "\<forall>s\<in>set sts. sequence_ok (snd s)"
        using check_sequences_zip [OF len, of u] by simp
      with rr have "\<forall>row\<in>set rows. row_accepted ?m row"
        by (auto simp: sts row_accepted_iff)
      with ok rd Inr st sts show ?thesis by (auto simp: parse_csv_def)
    qed
  qed
qed

subsection \<open>The emitted triples\<close>

lemma default_value_row:
  assumes "m < length row"
  shows "preference_value_for_unspecified pen (snd (row_state m row)) =
     (if specified_values m row = [] then pen + 1
      else Max (set (specified_values m row)) + pen)"
proof -
  have e: "map snd (snd (row_state m row)) = specified_values m row"
    by (rule snd_row_state [OF assms])
  show ?thesis
  proof (cases "snd (row_state m row) = []")
    case True
    with e show ?thesis by (simp add: preference_value_for_unspecified_def)
  next
    case False
    with e have ne: "specified_values m row \<noteq> []" by auto
    with False e show ?thesis
      by (simp add: preference_value_for_unspecified_def py_max_Max)
  qed
qed

lemma mem_merge_student:
  "(s, t, c) \<in> set (merge_student pen i (row_state m row)) \<longleftrightarrow>
     s = i \<and> t < m \<and>
     c = (if row ! Suc t = [] then preference_value_for_unspecified pen (snd (row_state m row))
          else the (py_int (row ! Suc t)))"
  by (auto simp: merge_student_def row_state_def)

lemma mem_merge_students:
  "x \<in> set (merge_students pen i sts) \<longleftrightarrow>
     (\<exists>j<length sts. x \<in> set (merge_student pen (i + j) (sts ! j)))"
proof (induction sts arbitrary: i)
  case Nil
  then show ?case by simp
next
  case (Cons st sts)
  have "(\<exists>j<length (st # sts). x \<in> set (merge_student pen (i + j) ((st # sts) ! j))) \<longleftrightarrow>
        x \<in> set (merge_student pen i st) \<or>
        (\<exists>j<length sts. x \<in> set (merge_student pen (Suc i + j) (sts ! j)))"
    by (auto simp: less_Suc_eq_0_disj)
  with Cons.IH [of "Suc i"] show ?case by simp
qed

lemma keys_merge_student:
  "mset (map (\<lambda>(s, t, c). (s, t)) (merge_student pen i (row_state m row))) =
     mset (map (Pair i) [0..<m])"
proof -
  have A: "map (\<lambda>(s, t, c). (s, t)) (merge_student pen i (row_state m row)) =
        map (Pair i) (filter (\<lambda>t. row ! Suc t \<noteq> []) [0..<m] @ filter (\<lambda>t. row ! Suc t = []) [0..<m])"
    by (simp add: merge_student_def row_state_def comp_def)
  have B: "mset (filter (\<lambda>t. row ! Suc t \<noteq> []) [0..<m] @ filter (\<lambda>t. row ! Suc t = []) [0..<m])
        = mset [0..<m]"
    by (induction m) auto
  show ?thesis
    by (simp only: A mset_map B)
qed

lemma keys_merge_students:
  "mset (map (\<lambda>(s, t, c). (s, t)) (merge_students pen i (map (row_state m) rows))) =
     mset (List.product [i..<i + length rows] [0..<m])"
proof (induction rows arbitrary: i)
  case Nil
  then show ?case by simp
next
  case (Cons row rows)
  have "[i..<i + length (row # rows)] = i # [Suc i..<Suc i + length rows]"
    using upt_conv_Cons [of i "i + length (row # rows)"] by simp
  with Cons.IH [of "Suc i"] keys_merge_student [of pen i m row] show ?case
    by simp
qed

lemma parse_csv_Inr_Cons:
  "parse_csv pen fields = Inr res \<Longrightarrow> \<exists>header rows. fields = header # rows"
  by (cases fields) (simp_all add: parse_csv_def)

lemma mem_preferences:
  assumes "parse_csv pen (header # rows) = Inr (students, topics, preferences)"
  shows "(s, t, c) \<in> set preferences \<longleftrightarrow>
     s < length rows \<and> t < length topics \<and>
     c = (if rows ! s ! Suc t = [] then
            (if specified_values (length topics) (rows ! s) = [] then pen + 1
             else Max (set (specified_values (length topics) (rows ! s))) + pen)
          else the (py_int (rows ! s ! Suc t)))"
proof -
  from assms have acc: "\<forall>row\<in>set rows. row_accepted (length (tl header)) row"
    and tp: "topics = tl header"
    and pr: "preferences = merge_students pen 0 (map (row_state (length (tl header))) rows)"
    unfolding parse_csv_Inr_iff by simp_all
  have len: "length topics < length (rows ! j)" if "j < length rows" for j
    using acc that tp by (simp add: row_accepted_def)
  show ?thesis
    unfolding pr mem_merge_students
    using len by (auto simp: tp [symmetric] mem_merge_student default_value_row)
qed

lemma specified_values_Nil_iff:
  assumes "m < length row"
  shows "specified_values m row = [] \<longleftrightarrow> (\<forall>t<m. row ! Suc t = [])"
proof -
  have "specified_values m row = [] \<longleftrightarrow> set (specified_cells m row) = {}"
    by (simp add: specified_values_def)
  also have "\<dots> \<longleftrightarrow> (\<forall>c. c \<notin> set (specified_cells m row))" by auto
  also have "\<dots> \<longleftrightarrow> (\<forall>t<m. row ! Suc t = [])"
    unfolding mem_specified_cells [OF assms] by blast
  finally show ?thesis .
qed

lemma cell_value_mem:
  assumes "m < length row" "t < m" "row ! Suc t \<noteq> []"
  shows "the (py_int (row ! Suc t)) \<in> set (specified_values m row)"
proof -
  from assms have "row ! Suc t \<in> set (specified_cells m row)"
    unfolding mem_specified_cells [OF assms(1)] by blast
  then show ?thesis by (simp add: specified_values_def)
qed

lemma specified_values_pos:
  assumes "row_accepted m row" "v \<in> set (specified_values m row)"
  shows "1 \<le> v"
proof -
  from assms(2) obtain c where c: "c \<in> set (specified_cells m row)" and v: "v = the (py_int c)"
    by (auto simp: specified_values_def)
  from assms(1) c obtain p where "py_int c = Some p" "1 \<le> p"
    unfolding row_accepted_def by blast
  with v show ?thesis by simp
qed

lemma parse_csv_accepted_row:
  assumes "parse_csv pen (header # rows) = Inr (students, topics, preferences)" "i < length rows"
  shows "row_accepted (length topics) (rows ! i)"
  using assms unfolding parse_csv_Inr_iff by simp

lemma preferences_keys:
  assumes "parse_csv pen fields = Inr (students, topics, preferences)"
  shows "distinct (map (\<lambda>(s, t, c). (s, t)) preferences) \<and>
         set (map (\<lambda>(s, t, c). (s, t)) preferences) =
           {0..<length students} \<times> {0..<length topics} \<and>
         length preferences = length students * length topics \<and>
         length students = length (tl fields) \<and> topics = tl (hd fields)"
proof -
  from parse_csv_Inr_Cons [OF assms] obtain header rows where f: "fields = header # rows"
    by blast
  from assms have st: "students = map hd rows" and tp: "topics = tl header"
    and pr: "preferences = merge_students pen 0 (map (row_state (length (tl header))) rows)"
    unfolding f parse_csv_Inr_iff by simp_all
  let ?keys = "map (\<lambda>(s, t, c). (s, t)) preferences"
  have m: "mset ?keys = mset (List.product [0..<length students] [0..<length topics])"
    unfolding pr using keys_merge_students [of pen 0 "length (tl header)" rows]
    by (simp add: st tp)
  have d: "distinct ?keys"
    using mset_eq_imp_distinct_iff [OF m] by (simp add: distinct_product)
  have s: "set ?keys = {0..<length students} \<times> {0..<length topics}"
    using mset_eq_setD [OF m] by simp
  have "length ?keys = length (List.product [0..<length students] [0..<length topics])"
    using m by (rule mset_eq_length)
  then have l: "length preferences = length students * length topics"
    by (simp add: length_product)
  from d s l show ?thesis by (simp add: f st tp)
qed

subsection \<open>Rejected tables\<close>

lemma isl_parse_csv_iff:
  "isl (parse_csv pen (header # rows)) \<longleftrightarrow>
     \<not> (\<forall>row\<in>set rows. row_accepted (length (tl header)) row)"
proof (cases "parse_csv pen (header # rows)")
  case (Inl e)
  then have "\<not> (\<exists>res. parse_csv pen (header # rows) = Inr res)" by simp
  then have "\<not> (\<forall>row\<in>set rows. row_accepted (length (tl header)) row)"
    unfolding parse_csv_Inr_iff by simp
  with Inl show ?thesis by simp
next
  case (Inr res)
  then have "\<forall>row\<in>set rows. row_accepted (length (tl header)) row"
    unfolding parse_csv_Inr_iff by simp
  with Inr show ?thesis by simp
qed

lemma row_accepted_values:
  "row_accepted m row \<longleftrightarrow>
     m < length row \<and>
     (\<forall>v\<in>set (map py_int (specified_cells m row)). \<exists>p. v = Some p \<and> 1 \<le> p) \<and>
     distinct (map the (map py_int (specified_cells m row))) \<and>
     2 * sum_list (map the (map py_int (specified_cells m row))) =
       int (length (map py_int (specified_cells m row))) *
       (int (length (map py_int (specified_cells m row))) + 1)"
  by (simp add: row_accepted_def specified_values_def comp_def)

lemma row_accepted_cong:
  assumes "length row = length row'"
    and "mset (map py_int (specified_cells m row)) = mset (map py_int (specified_cells m row'))"
  shows "row_accepted m row \<longleftrightarrow> row_accepted m row'"
proof -
  let ?vs = "map py_int (specified_cells m row)" and ?vs' = "map py_int (specified_cells m row')"
  have s: "set ?vs = set ?vs'" using assms(2) by (rule mset_eq_setD)
  have l: "length ?vs = length ?vs'" using assms(2) by (rule mset_eq_length)
  have m: "mset (map the ?vs) = mset (map the ?vs')"
    using assms(2) by (metis mset_map)
  have d: "distinct (map the ?vs) \<longleftrightarrow> distinct (map the ?vs')"
    using m by (rule mset_eq_imp_distinct_iff)
  have "sum_mset (mset (map the ?vs)) = sum_mset (mset (map the ?vs'))"
    by (simp only: m)
  then have u: "sum_list (map the ?vs) = sum_list (map the ?vs')"
    by (simp only: sum_mset_sum_list)
  show ?thesis
    unfolding row_accepted_values s l d u assms(1) ..
qed

lemma even_half_eq:
  fixes s k :: int
  shows "2 * s = k * (k + 1) \<longleftrightarrow> s = k * (k + 1) div 2"
proof -
  have "even (k * (k + 1))" by simp
  then show ?thesis by (auto elim: evenE)
qed

lemma check_sequences_first_failure:
  assumes "length ns = length sts" and "check_sequences (zip ns sts) = Inl e"
  shows "\<exists>i<length sts. e = ValueError (NotSequence (ns ! i)) \<and> \<not> sequence_ok (snd (sts ! i)) \<and>
           (\<forall>j<i. sequence_ok (snd (sts ! j)))"
  using assms
proof (induction ns sts rule: list_induct2)
  case Nil
  then show ?case by simp
next
  case (Cons n ns st sts)
  show ?case
  proof (cases "sequence_ok (snd st)")
    case False
    with Cons.prems have "e = ValueError (NotSequence n)" by simp
    with False show ?thesis by (intro exI [of _ 0]) simp
  next
    case True
    with Cons.prems have "check_sequences (zip ns sts) = Inl e" by simp
    from Cons.IH [OF this] obtain i where i: "i < length sts"
      "e = ValueError (NotSequence (ns ! i))" "\<not> sequence_ok (snd (sts ! i))"
      "\<forall>j<i. sequence_ok (snd (sts ! j))" by blast
    have "\<forall>j<Suc i. sequence_ok (snd ((st # sts) ! j))"
      using True i(4) by (auto simp: less_Suc_eq_0_disj)
    with i(1-3) show ?thesis by (intro exI [of _ "Suc i"]) simp
  qed
qed

subsection \<open>The exception of the first offending cell\<close>

lemma read_topics_append:
  "read_topics topics sname row (ts @ us) st =
     (case read_topics topics sname row ts st of
        Inl e \<Rightarrow> Inl e
      | Inr st' \<Rightarrow> read_topics topics sname row us st')"
  by (induction ts arbitrary: st) (auto split: sum.splits)

lemma read_students_append:
  "read_students topics (xs @ ys) =
     (case read_students topics xs of
        Inl e \<Rightarrow> Inl e
      | Inr a \<Rightarrow>
          (case read_students topics ys of
             Inl e \<Rightarrow> Inl e
           | Inr b \<Rightarrow> Inr (a @ b)))"
proof (induction xs)
  case Nil
  then show ?case by (simp split: sum.splits)
next
  case (Cons x xs)
  obtain n r where x: "x = (n, r)" by (cases x)
  show ?case unfolding x using Cons.IH by (simp split: sum.splits)
qed

lemma parse_csv_fails_at_cell:
  assumes fc: "first_column rows = Inr students"
    and i: "i < length rows" and j: "j < length (tl header)"
    and prev: "read_students (tl header) (take i (zip students rows)) = Inr sts"
    and row: "read_topics (tl header) (students ! i) (rows ! i) [0..<j] ([], []) = Inr st"
    and cell: "read_cell (tl header) (students ! i) (rows ! i) j st = Inl e"
  shows "parse_csv pen (header # rows) = Inl e"
proof -
  let ?Z = "zip students rows"
  from first_column_Inr [OF fc] have len: "length students = length rows" by simp
  with i have iz: "i < length ?Z" by simp
  have zi: "?Z ! i = (students ! i, rows ! i)"
    using i len by simp
  have z: "?Z = take i ?Z @ (students ! i, rows ! i) # drop (Suc i) ?Z"
    using id_take_nth_drop [OF iz] zi by simp
  have "[0..<length (tl header)] = [0..<j] @ [j..<length (tl header)]"
    using j upt_add_eq_append [of 0 j "length (tl header) - j"] by simp
  also have "[j..<length (tl header)] = j # [Suc j..<length (tl header)]"
    using j by (rule upt_conv_Cons)
  finally have u: "[0..<length (tl header)] = [0..<j] @ j # [Suc j..<length (tl header)]" .
  have t: "read_topics (tl header) (students ! i) (rows ! i) [0..<length (tl header)] ([], []) = Inl e"
    unfolding u read_topics_append using row cell by simp
  have "read_students (tl header) (take i ?Z @ (students ! i, rows ! i) # drop (Suc i) ?Z) = Inl e"
    unfolding read_students_append using prev t by simp
  then have "read_students (tl header) ?Z = Inl e"
    using z by simp
  with fc show ?thesis by (simp add: parse_csv_def)
qed

lemma duplicate_not_accepted:
  assumes "j < m" "j' < j" "row ! Suc j \<noteq> []" "row ! Suc j' \<noteq> []"
    and "py_int (row ! Suc j') = py_int (row ! Suc j)"
  shows "\<not> distinct (cell_values row [0..<m])"
proof
  let ?f = "\<lambda>t. the (py_int (row ! Suc t))"
  let ?ts = "filter (\<lambda>t. row ! Suc t \<noteq> []) [0..<m]"
  assume "distinct (cell_values row [0..<m])"
  then have inj: "inj_on ?f (set ?ts)"
    unfolding cell_values_def distinct_map by simp
  from assms have m: "j' \<in> set ?ts" "j \<in> set ?ts" and e: "?f j' = ?f j" by simp_all
  from inj_onD [OF inj e m] assms(2) show False by simp
qed

lemma bad_value_not_accepted:
  assumes "j < m" "row ! Suc j \<noteq> []" "py_int (row ! Suc j) = Some p"
    and "p < 1 \<or> (\<exists>j'<j. row ! Suc j' \<noteq> [] \<and> py_int (row ! Suc j') = Some p)"
  shows "\<not> row_accepted m row"
proof
  assume acc: "row_accepted m row"
  then have len: "m < length row" by (simp add: row_accepted_def)
  from assms(1,2) have "row ! Suc j \<in> set (specified_cells m row)"
    unfolding mem_specified_cells [OF len] by blast
  with acc assms(3) have "1 \<le> p" unfolding row_accepted_def by fastforce
  with assms(4) obtain j' where j': "j' < j" "row ! Suc j' \<noteq> []" "py_int (row ! Suc j') = Some p"
    by auto
  from duplicate_not_accepted [OF assms(1) j'(1) assms(2) j'(2)] j'(3) assms(3)
  have "\<not> distinct (specified_values m row)"
    by (simp add: cell_values_upt [OF len])
  with acc show False by (simp add: row_accepted_def)
qed

lemma read_cell_bad_value:
  assumes "read_topics topics sname row [0..<j] ([], []) = Inr st"
    and "Suc j < length row" "row ! Suc j \<noteq> []" "py_int (row ! Suc j) = Some p"
    and "p < 1 \<or> (\<exists>j'<j. row ! Suc j' \<noteq> [] \<and> py_int (row ! Suc j') = Some p)"
  shows "read_cell topics sname row j st =
     Inl (ValueError (if p < 1 then LessThanOne p sname (topics ! j)
                      else NotUnique p sname (topics ! j)))"
proof (cases "p < 1")
  case True
  with assms(2-4) show ?thesis
    by (cases st) (simp add: read_cell_def)
next
  case False
  with assms(5) obtain j' where j': "j' < j" "row ! Suc j' \<noteq> []" "py_int (row ! Suc j') = Some p"
    by auto
  obtain un sp where st: "st = (un, sp)" by (cases st)
  from read_topics_Inr [OF assms(1) [unfolded st]]
  have "sp = map (\<lambda>t. (t, the (py_int (row ! Suc t)))) (filter (\<lambda>t. row ! Suc t \<noteq> []) [0..<j])"
    by simp
  then have "map snd sp = map (\<lambda>t. the (py_int (row ! Suc t))) (filter (\<lambda>t. row ! Suc t \<noteq> []) [0..<j])"
    by (simp add: comp_def)
  moreover from j' have "j' \<in> set (filter (\<lambda>t. row ! Suc t \<noteq> []) [0..<j])" by simp
  ultimately have "the (py_int (row ! Suc j')) \<in> set (map snd sp)"
    by (metis (no_types, lifting) image_eqI set_map)
  with j'(3) have "p \<in> set (map snd sp)" by simp
  with False assms(2-4) show ?thesis
    unfolding st by (simp add: read_cell_def)
qed

lemma short_row_not_accepted:
  "length row < length header \<Longrightarrow> \<not> row_accepted (length (tl header)) row"
  by (cases header) (simp_all add: row_accepted_def)

lemma bad_literal_not_accepted:
  "c \<in> set (specified_cells m row) \<Longrightarrow> py_int c = None \<Longrightarrow> \<not> row_accepted m row"
  unfolding row_accepted_def by fastforce

lemma empty_row_IndexError:
  assumes "[] \<in> set rows"
  shows "parse_csv pen (header # rows) = Inl IndexError"
proof (cases "first_column rows")
  case (Inl e)
  with first_column_Inl [OF Inl] show ?thesis by (simp add: parse_csv_def)
next
  case (Inr names)
  with first_column_Inr [OF Inr] assms show ?thesis by simp
qed

lemma row_accepted_take:
  "row_accepted m (take (Suc m) row) \<longleftrightarrow> row_accepted m row"
proof -
  have "take m (tl (take (Suc m) row)) = take m (tl row)"
    by (cases row) simp_all
  then have c: "specified_cells m (take (Suc m) row) = specified_cells m row"
    by (simp add: specified_cells_def)
  have l: "m < length (take (Suc m) row) \<longleftrightarrow> m < length row" by auto
  show ?thesis
    unfolding row_accepted_def specified_values_def c l ..
qed

section \<open>Properties of the solver wrapper\<close>

lemma run_Inl: "parse_csv pen table = Inl e \<Longrightarrow> run np solver pen table = Inl e"
  by (simp add: run_def)

lemma fill_matrix_Inr:
  assumes "fill_matrix np M prefs = Inr M'"
    and "length M = n" "\<forall>i<n. length (M ! i) = m"
    and "distinct (map (\<lambda>(s, t, c). (s, t)) prefs)"
  shows "length M' = n \<and> (\<forall>i<n. length (M' ! i) = m) \<and>
         (\<forall>(s, t, c)\<in>set prefs. np_float np c = Inr (M' ! s ! t)) \<and>
         (\<forall>i<n. \<forall>j<m. (i, j) \<notin> set (map (\<lambda>(s, t, c). (s, t)) prefs) \<longrightarrow> M' ! i ! j = M ! i ! j)"
  using assms
proof (induction prefs arbitrary: M)
  case Nil
  then show ?case by simp
next
  case (Cons p prefs)
  obtain s t c where p: "p = (s, t, c)" by (cases p)
  from Cons.prems(1) have s: "s < length M" and t: "t < length (M ! s)"
    unfolding p by (auto split: if_splits)
  with Cons.prems(1) obtain x where x: "np_float np c = Inr x"
    and rest: "fill_matrix np (M[s := (M ! s)[t := x]]) prefs = Inr M'"
    unfolding p by (auto split: sum.splits)
  let ?M1 = "M[s := (M ! s)[t := x]]"
  from s t Cons.prems(2,3) have sn: "s < n" and tm: "t < m" by auto
  from Cons.prems(4) have nk: "(s, t) \<notin> set (map (\<lambda>(s, t, c). (s, t)) prefs)"
    and dk: "distinct (map (\<lambda>(s, t, c). (s, t)) prefs)" by (simp_all add: p)
  have l1: "length ?M1 = n" using Cons.prems(2) by simp
  have r1: "\<forall>i<n. length (?M1 ! i) = m"
    using Cons.prems(2,3) sn by (auto simp: nth_list_update)
  from Cons.IH [OF rest l1 r1 dk]
  have M': "length M' = n" "\<forall>i<n. length (M' ! i) = m"
    "\<forall>(s, t, c)\<in>set prefs. np_float np c = Inr (M' ! s ! t)"
    "\<forall>i<n. \<forall>j<m. (i, j) \<notin> set (map (\<lambda>(s, t, c). (s, t)) prefs) \<longrightarrow> M' ! i ! j = ?M1 ! i ! j"
    by simp_all
  have here: "M' ! s ! t = x"
    using M'(4) sn tm nk Cons.prems(2,3) by simp
  have other: "M' ! i ! j = M ! i ! j"
    if "i < n" "j < m" "(i, j) \<notin> set (map (\<lambda>(s, t, c). (s, t)) (p # prefs))" for i j
  proof -
    from that(3) p have ne: "(i, j) \<noteq> (s, t)"
      and nk': "(i, j) \<notin> set (map (\<lambda>(s, t, c). (s, t)) prefs)" by auto
    from M'(4) that(1,2) nk' have "M' ! i ! j = ?M1 ! i ! j" by simp
    also have "\<dots> = M ! i ! j"
      using ne that(1) Cons.prems(2) by (cases "i = s") (auto simp: nth_list_update)
    finally show ?thesis .
  qed
  from M'(1,2,3) here x other show ?case
    unfolding p by auto
qed

lemma fill_matrix_Inl:
  assumes "fill_matrix np M prefs = Inl e"
    and "length M = n" "\<forall>i<n. length (M ! i) = m"
    and "\<forall>(s, t, c)\<in>set prefs. s < n \<and> t < m"
  shows "\<exists>(s, t, c)\<in>set prefs. np_float np c = Inl e"
  using assms
proof (induction prefs arbitrary: M)
  case Nil
  then show ?case by simp
next
  case (Cons p prefs)
  obtain s t c where p: "p = (s, t, c)" by (cases p)
  from Cons.prems(4) p have sn: "s < n" and tm: "t < m" by simp_all
  show ?case
  proof (cases "np_float np c")
    case (Inl e')
    with Cons.prems(1,2,3) sn tm have "e' = e" by (simp add: p)
    with Inl show ?thesis by (auto simp: p)
  next
    case (Inr x)
    let ?M1 = "M[s := (M ! s)[t := x]]"
    from Inr Cons.prems(1,2,3) sn tm have rest: "fill_matrix np ?M1 prefs = Inl e"
      by (simp add: p)
    have l1: "length ?M1 = n" using Cons.prems(2) by simp
    have r1: "\<forall>i<n. length (?M1 ! i) = m"
      using Cons.prems(2,3) sn by (auto simp: nth_list_update)
    have p1: "\<forall>(s, t, c)\<in>set prefs. s < n \<and> t < m" using Cons.prems(4) by simp
    from Cons.IH [OF rest l1 r1 p1] show ?thesis by auto
  qed
qed

lemma preferences_in_range:
  assumes "parse_csv pen table = Inr (students, topics, preferences)"
  shows "\<forall>(s, t, c)\<in>set preferences. s < length students \<and> t < length topics"
proof (clarify)
  fix a b c assume "(a, b, c) \<in> set preferences"
  then have "(a, b) \<in> set (map (\<lambda>(s, t, c). (s, t)) preferences)" by force
  with preferences_keys [OF assms]
  show "a < length students \<and> b < length topics" by simp
qed

lemma build_cost_matrix_Inr:
  assumes "parse_csv pen table = Inr (students, topics, preferences)"
    and "build_cost_matrix np students topics preferences = Inr M"
  shows "length M = length students \<and> (\<forall>i<length students. length (M ! i) = length topics) \<and>
         (\<forall>(s, t, c)\<in>set preferences. np_float np c = Inr (M ! s ! t))"
proof -
  from preferences_keys [OF assms(1)]
  have d: "distinct (map (\<lambda>(s, t, c). (s, t)) preferences)" by simp
  have "length (zeros np (length students) (length topics)) = length students"
    and "\<forall>i<length students. length (zeros np (length students) (length topics) ! i) = length topics"
    by (simp_all add: zeros_def)
  from fill_matrix_Inr [OF assms(2) [unfolded build_cost_matrix_def] this d]
  show ?thesis by simp
qed

lemma build_cost_matrix_Inl:
  assumes "parse_csv pen table = Inr (students, topics, preferences)"
    and "build_cost_matrix np students topics preferences = Inl e"
  shows "\<exists>(s, t, c)\<in>set preferences. np_float np c = Inl e"
proof -
  have "length (zeros np (length students) (length topics)) = length students"
    and "\<forall>i<length students. length (zeros np (length students) (length topics) ! i) = length topics"
    by (simp_all add: zeros_def)
  from fill_matrix_Inl [OF assms(2) [unfolded build_cost_matrix_def] this
      preferences_in_range [OF assms(1)]]
  show ?thesis .
qed

lemma matched_cells_Inr:
  assumes "\<forall>(r, c)\<in>set pairs. r < length M \<and> c < length (M ! r)"
  shows "matched_cells M pairs = Inr (map (\<lambda>(r, c). M ! r ! c) pairs)"
  using assms by (induction pairs) auto

lemma solution_lines_Inr:
  assumes "\<forall>(r, c)\<in>set pairs. r < length students \<and> c < length topics"
  shows "solution_lines students topics pairs =
     Inr (map (\<lambda>(r, c). (students ! r, topics ! c)) pairs)"
  using assms by (induction pairs) auto

lemma run_accepted:
  assumes "parse_csv pen table = Inr (students, topics, preferences)"
    and "build_cost_matrix np students topics preferences = Inr M"
    and "solver M = Inr pairs"
    and "\<forall>(r, c)\<in>set pairs. r < length students \<and> c < length topics"
  shows "run np solver pen table =
     (case format_d np (np_sum np (map (\<lambda>(r, c). M ! r ! c) pairs)) of
        Inl e \<Rightarrow> Inl e
      | Inr printed \<Rightarrow>
          (case np_greater np
                  (np_divide np (np_sum np (map (\<lambda>(r, c). M ! r ! c) pairs)) (length students))
                  pen of
             Inl e \<Rightarrow> Inl e
           | Inr warn \<Rightarrow>
               Inr (Report printed
                      (np_divide np (np_sum np (map (\<lambda>(r, c). M ! r ! c) pairs))
                         (length students))
                      warn
                      (map (\<lambda>(r, c). (students ! r, topics ! c)) pairs))))"
proof -
  from build_cost_matrix_Inr [OF assms(1,2)]
  have l: "length M = length students"
    and r: "\<forall>i<length students. length (M ! i) = length topics" by simp_all
  from l r assms(4) have "\<forall>(r, c)\<in>set pairs. r < length M \<and> c < length (M ! r)"
    by auto
  from matched_cells_Inr [OF this] solution_lines_Inr [OF assms(4)] assms(1,2,3)
  show ?thesis
    by (simp add: run_def solve_assignment_problem_def Let_def split: sum.splits)
qed

lemma matrix_cell_in_preferences:
  assumes "parse_csv pen table = Inr (students, topics, preferences)"
    and "build_cost_matrix np students topics preferences = Inr M"
    and "i < length students" "j < length topics"
  shows "\<exists>c. (i, j, c) \<in> set preferences \<and> np_float np c = Inr (M ! i ! j)"
proof -
  from preferences_keys [OF assms(1)] assms(3,4)
  have "(i, j) \<in> set (map (\<lambda>(s, t, c). (s, t)) preferences)" by simp
  then obtain c where c: "(i, j, c) \<in> set preferences" by auto
  with build_cost_matrix_Inr [OF assms(1,2)] have "np_float np c = Inr (M ! i ! j)" by auto
  with c show ?thesis by blast
qed

section \<open>A worked table\<close>

lemmas eval_defs = parse_csv_def read_cell_def sequence_ok_def merge_student_def
  preference_value_for_unspecified_def py_int_def strip_def is_space_def unsigned_int_def
  is_digit_def digit_val_def

text \<open>
  Three students and three topics; the second student ranks one topic, the third two.
  The loader returns the triples of each student with the specified ones first.
\<close>

lemma parse_example:
  "parse_csv 3 example_table =
   Inr ([''s1'', ''s2'', ''s3''], [''A'', ''B'', ''C''], example_preferences)"
  by (simp add: eval_defs)

lemma example_cost_matrix:
  "build_cost_matrix small_floats [''s1'', ''s2'', ''s3''] [''A'', ''B'', ''C'']
     example_preferences = Inr [[1, 2, 3], [4, 1, 4], [2, 5, 1]]"
  by (simp add: build_cost_matrix_def zeros_def numeral_3_eq_3)

lemma py_int_examples:
  "py_int '' 12 '' = Some 12 \<and> py_int ''-1_0'' = Some (- 10) \<and> py_int ''1__0'' = None \<and>
   py_int [CHR 0xA0, CHR ''1''] = Some 1 \<and> py_int [CHR ''1'', CHR 0x1C] = None"
  by (simp add: py_int_def strip_def is_space_def unsigned_int_def is_digit_def digit_val_def)

section \<open>The claims\<close>

text \<open>
  Claim C1. In an accepted table, a topic that a student left empty carries exactly one
  cost: the largest value the student specified plus the threshold when the student
  specified something, and the threshold plus one otherwise. A student who specified
  nothing gets the threshold plus one on every topic.
\<close>

theorem unspecified_topics_get_default_cost:
  assumes "parse_csv pen (header # rows) = Inr (students, topics, preferences)"
    and "i < length rows" and "j < length topics" and "rows ! i ! Suc j = []"
  shows "((i, j, c) \<in> set preferences \<longleftrightarrow>
           c = (if specified_values (length topics) (rows ! i) = [] then pen + 1
                else Max (set (specified_values (length topics) (rows ! i))) + pen)) \<and>
         (specified_values (length topics) (rows ! i) = [] \<longrightarrow>
           (\<forall>t<length topics. (i, t, pen + 1) \<in> set preferences))"
proof -
  have len: "length topics < length (rows ! i)"
    using parse_csv_accepted_row [OF assms(1,2)] by (simp add: row_accepted_def)
  show ?thesis
    using assms(2-4) specified_values_Nil_iff [OF len]
    unfolding mem_preferences [OF assms(1)] by simp
qed

theorem unspecified_topics_get_default_cost_witness:
  "parse_csv 3 example_table =
     Inr ([''s1'', ''s2'', ''s3''], [''A'', ''B'', ''C''], example_preferences) \<and>
   specified_values 3 (tl example_table ! 1) = [1] \<and>
   (1, 0, 1 + 3) \<in> set example_preferences"
  using unspecified_topics_get_default_cost [OF parse_example, of 1 0 4] parse_example
  by (simp add: specified_values_def specified_cells_def py_int_def strip_def is_space_def
      unsigned_int_def is_digit_def digit_val_def)

text \<open>
  Claim C2. Let the first loop have passed for every student, so that each student's
  specified values are distinct and at least one. Then loading fails if and only if for
  some student the sum \<open>S\<close> of the \<open>k\<close> specified values differs from \<open>k (k + 1) / 2\<close>;
  the error is the \<^verbatim>\<open>ValueError\<close> of line 119 and names the first such student; for each
  student the sum equals \<open>k (k + 1) / 2\<close> exactly when the specified values are the set
  \<open>{1, \<dots>, k}\<close>, and loading succeeds exactly when that holds for every student.
\<close>

theorem sequence_check_accepts_exactly_one_to_k:
  assumes "first_column rows = Inr students"
    and "read_students (tl header) (zip students rows) = Inr sts"
  shows "(isl (parse_csv pen (header # rows)) \<longleftrightarrow>
            (\<exists>st\<in>set sts. sum_list (map snd (snd st)) \<noteq>
               int (length (snd st)) * (int (length (snd st)) + 1) div 2)) \<and>
         (\<forall>e. parse_csv pen (header # rows) = Inl e \<longrightarrow>
            (\<exists>i<length sts. e = ValueError (NotSequence (students ! i)) \<and>
               sum_list (map snd (snd (sts ! i))) \<noteq>
                 int (length (snd (sts ! i))) * (int (length (snd (sts ! i))) + 1) div 2)) \<and>
         (\<forall>st\<in>set sts.
            (sum_list (map snd (snd st)) =
               int (length (snd st)) * (int (length (snd st)) + 1) div 2) =
            (set (map snd (snd st)) = {1..int (length (snd st))})) \<and>
         ((\<exists>res. parse_csv pen (header # rows) = Inr res) \<longleftrightarrow>
            (\<forall>st\<in>set sts. set (map snd (snd st)) = {1..int (length (snd st))}))"
proof -
  let ?m = "length (tl header)"
  let ?bad = "\<lambda>st::prefs. sum_list (map snd (snd st)) \<noteq>
               int (length (snd st)) * (int (length (snd st)) + 1) div 2"
  from first_column_Inr [OF assms(1)] have ne: "[] \<notin> set rows" and st: "students = map hd rows"
    by simp_all
  from assms(2) have rr: "\<forall>row\<in>set rows. row_readable ?m row"
    and sts: "sts = map (row_state ?m) rows"
    using read_students_rows_iff [OF ne, of "tl header" sts] st by simp_all
  have len: "length students = length sts" by (simp add: st sts)
  have ok_iff: "sequence_ok (snd s) \<longleftrightarrow> \<not> ?bad s" for s
    unfolding sequence_ok_iff even_half_eq by simp
  have vals: "distinct (map snd (snd s)) \<and> (\<forall>v\<in>set (map snd (snd s)). 1 \<le> v)"
    if "s \<in> set sts" for s
  proof -
    from that sts obtain row where row: "row \<in> set rows" "s = row_state ?m row" by auto
    with rr have r: "row_readable ?m row" by simp
    then have e: "map snd (snd s) = specified_values ?m row"
      unfolding row(2) by (intro snd_row_state) (simp add: row_readable_def)
    from r have "\<forall>c\<in>set (specified_cells ?m row). \<exists>p. py_int c = Some p \<and> 1 \<le> p"
      by (simp add: row_readable_def)
    then have "\<forall>v\<in>set (specified_values ?m row). 1 \<le> v"
      by (auto simp: specified_values_def)
    with r show ?thesis unfolding e by (simp add: row_readable_def)
  qed
  have set_iff: "\<not> ?bad s \<longleftrightarrow> set (map snd (snd s)) = {1..int (length (snd s))}"
    if "s \<in> set sts" for s
  proof -
    from vals [OF that] have d: "distinct (map snd (snd s))"
      and p: "\<forall>x\<in>set (map snd (snd s)). 1 \<le> x" by simp_all
    from sequence_values_iff [OF d p] show ?thesis
      unfolding even_half_eq by simp
  qed
  have p: "parse_csv pen (header # rows) =
      (case check_sequences (zip students sts) of
         Inl e \<Rightarrow> Inl e
       | Inr u \<Rightarrow> Inr (students, tl header, merge_students pen 0 sts))"
    using assms by (simp add: parse_csv_def)
  have acc: "(\<exists>res. parse_csv pen (header # rows) = Inr res) \<longleftrightarrow> (\<forall>s\<in>set sts. \<not> ?bad s)"
  proof (cases "check_sequences (zip students sts)")
    case (Inl e)
    then have "\<not> (\<forall>s\<in>set sts. sequence_ok (snd s))"
      using check_sequences_zip [OF len, of "()"] by auto
    with Inl p show ?thesis by (simp add: ok_iff)
  next
    case (Inr u)
    then have "\<forall>s\<in>set sts. sequence_ok (snd s)"
      using check_sequences_zip [OF len, of u] by simp
    with Inr p show ?thesis by (simp add: ok_iff)
  qed
  have c1: "isl (parse_csv pen (header # rows)) \<longleftrightarrow> (\<exists>st\<in>set sts. ?bad st)"
    using acc by (cases "parse_csv pen (header # rows)") auto
  have c2: "\<exists>i<length sts. e = ValueError (NotSequence (students ! i)) \<and> ?bad (sts ! i)"
    if "parse_csv pen (header # rows) = Inl e" for e
  proof -
    from that p have "check_sequences (zip students sts) = Inl e"
      by (simp split: sum.splits)
    from check_sequences_first_failure [OF len this] show ?thesis
      by (auto simp: ok_iff)
  qed
  have c3: "\<forall>st\<in>set sts. (sum_list (map snd (snd st)) =
               int (length (snd st)) * (int (length (snd st)) + 1) div 2) =
            (set (map snd (snd st)) = {1..int (length (snd st))})"
    using set_iff by simp
  have c4: "(\<exists>res. parse_csv pen (header # rows) = Inr res) \<longleftrightarrow>
            (\<forall>st\<in>set sts. set (map snd (snd st)) = {1..int (length (snd st))})"
    unfolding acc using set_iff by blast
  from c1 c2 c3 c4 show ?thesis by blast
qed

theorem sequence_check_accepts_exactly_one_to_k_witness:
  "first_column [[''s1'', ''1'', ''3'']] = Inr [''s1''] \<and>
   read_students (tl [''X'', ''A'', ''B'']) (zip [''s1''] [[''s1'', ''1'', ''3'']]) =
     Inr [([], [(0, 1), (1, 3)])] \<and>
   isl (parse_csv 3 [[''X'', ''A'', ''B''], [''s1'', ''1'', ''3'']]) \<and>
   sum_list [1, 3] \<noteq> (2 * (2 + 1) div 2 :: int)"
proof -
  have a: "first_column [[''s1'', ''1'', ''3'']] = Inr [''s1'']" by simp
  have b: "read_students (tl [''X'', ''A'', ''B'']) (zip [''s1''] [[''s1'', ''1'', ''3'']]) =
     Inr [([], [(0, 1), (1, 3)])]"
    by (simp add: eval_defs)
  from sequence_check_accepts_exactly_one_to_k [OF a b, of 3] a b show ?thesis
    by simp
qed

text \<open>
  Claim C3. A non-empty cell in a topic column that parses to \<open>p\<close> makes loading fail
  when \<open>p < 1\<close> or when an earlier cell of the same row parses to \<open>p\<close> as well; when the
  loader reaches the cell (the earlier students and the earlier cells of the row passed),
  the error is the \<^verbatim>\<open>ValueError\<close> of line 107 or of line 109. Acceptance is decided row
  by row, so a value may occur in the rows of two students.
\<close>

theorem invalid_preference_value_rejected:
  "(i < length rows \<and> j < length (tl header) \<and> Suc j < length (rows ! i) \<and>
    rows ! i ! Suc j \<noteq> [] \<and> py_int (rows ! i ! Suc j) = Some p \<and>
    (p < 1 \<or> (\<exists>j'<j. rows ! i ! Suc j' \<noteq> [] \<and> py_int (rows ! i ! Suc j') = Some p))
    \<longrightarrow>
      isl (parse_csv pen (header # rows)) \<and>
      (first_column rows = Inr students \<and>
       read_students (tl header) (take i (zip students rows)) = Inr sts \<and>
       read_topics (tl header) (students ! i) (rows ! i) [0..<j] ([], []) = Inr st
       \<longrightarrow>
         parse_csv pen (header # rows) =
           Inl (ValueError (if p < 1 then LessThanOne p (students ! i) (tl header ! j)
                            else NotUnique p (students ! i) (tl header ! j))))) \<and>
   ((\<exists>res. parse_csv pen (header # rows) = Inr res) \<longleftrightarrow>
      (\<forall>row\<in>set rows. row_accepted (length (tl header)) row))"
proof (intro conjI impI)
  assume h: "i < length rows \<and> j < length (tl header) \<and> Suc j < length (rows ! i) \<and>
    rows ! i ! Suc j \<noteq> [] \<and> py_int (rows ! i ! Suc j) = Some p \<and>
    (p < 1 \<or> (\<exists>j'<j. rows ! i ! Suc j' \<noteq> [] \<and> py_int (rows ! i ! Suc j') = Some p))"
  then have i: "i < length rows" and j: "j < length (tl header)"
    and l: "Suc j < length (rows ! i)" and c: "rows ! i ! Suc j \<noteq> []"
    and p: "py_int (rows ! i ! Suc j) = Some p"
    and b: "p < 1 \<or> (\<exists>j'<j. rows ! i ! Suc j' \<noteq> [] \<and> py_int (rows ! i ! Suc j') = Some p)"
    by simp_all
  from bad_value_not_accepted [OF j c p b] have "\<not> row_accepted (length (tl header)) (rows ! i)" .
  with i have "\<not> (\<forall>row\<in>set rows. row_accepted (length (tl header)) row)"
    using nth_mem by blast
  then show "isl (parse_csv pen (header # rows))"
    unfolding isl_parse_csv_iff .
  assume r: "first_column rows = Inr students \<and>
       read_students (tl header) (take i (zip students rows)) = Inr sts \<and>
       read_topics (tl header) (students ! i) (rows ! i) [0..<j] ([], []) = Inr st"
  then have fc: "first_column rows = Inr students"
    and prev: "read_students (tl header) (take i (zip students rows)) = Inr sts"
    and row: "read_topics (tl header) (students ! i) (rows ! i) [0..<j] ([], []) = Inr st"
    by simp_all
  from read_cell_bad_value [OF row l c p b]
  show "parse_csv pen (header # rows) =
           Inl (ValueError (if p < 1 then LessThanOne p (students ! i) (tl header ! j)
                            else NotUnique p (students ! i) (tl header ! j)))"
    by (rule parse_csv_fails_at_cell [OF fc i j prev row])
next
  show "(\<exists>res. parse_csv pen (header # rows) = Inr res) \<longleftrightarrow>
      (\<forall>row\<in>set rows. row_accepted (length (tl header)) row)"
    unfolding parse_csv_Inr_iff by simp
qed

theorem invalid_preference_value_rejected_witness:
  "parse_csv 3 [[''X'', ''A'', ''B''], [''s1'', ''1'', ''1'']] =
     Inl (ValueError (NotUnique 1 ''s1'' ''B'')) \<and>
   parse_csv 3 [[''X'', ''A''], [''s1'', ''1''], [''s2'', ''1'']] =
     Inr ([''s1'', ''s2''], [''A''], [(0, 0, 1), (1, 0, 1)])"
proof -
  have "parse_csv 3 [[''X'', ''A'', ''B''], [''s1'', ''1'', ''1'']] =
     Inl (ValueError (NotUnique 1 ''s1'' ''B''))"
    using invalid_preference_value_rejected
      [where i = 0 and j = 1 and p = 1 and pen = 3 and header = "[''X'', ''A'', ''B'']"
         and rows = "[[''s1'', ''1'', ''1'']]" and students = "[''s1'']" and sts = "[]"
         and st = "([], [(0, 1)])"]
    by (simp add: read_cell_def py_int_def strip_def is_space_def unsigned_int_def
        is_digit_def digit_val_def)
  moreover have "parse_csv 3 [[''X'', ''A''], [''s1'', ''1''], [''s2'', ''1'']] =
     Inr ([''s1'', ''s2''], [''A''], [(0, 0, 1), (1, 0, 1)])"
    by (simp add: eval_defs)
  ultimately show ?thesis by simp
qed

text \<open>
  Claim C4. The preference list of an accepted table holds every pair (student index,
  topic index) exactly once: the pairs are distinct and are all pairs of the table. The
  cost matrix is built from the list unless a cost cannot be converted to a float; once
  built it has one row per student and one column per topic, and each of its cells is
  the float of the cost of the triple of that cell.
\<close>

theorem preferences_cover_every_pair_once:
  assumes "parse_csv pen fields = Inr (students, topics, preferences)"
  shows "distinct (map (\<lambda>(s, t, c). (s, t)) preferences) \<and>
         set (map (\<lambda>(s, t, c). (s, t)) preferences) =
           {0..<length students} \<times> {0..<length topics} \<and>
         length preferences = length students * length topics \<and>
         length students = length (tl fields) \<and> topics = tl (hd fields) \<and>
         (\<forall>M. build_cost_matrix np students topics preferences = Inr M \<longrightarrow>
              length M = length students \<and>
              (\<forall>i<length students. length (M ! i) = length topics \<and>
                 (\<forall>j<length topics.
                    \<exists>c. (i, j, c) \<in> set preferences \<and> np_float np c = Inr (M ! i ! j)))) \<and>
         (\<forall>e. build_cost_matrix np students topics preferences = Inl e \<longrightarrow>
              (\<exists>(s, t, c)\<in>set preferences. np_float np c = Inl e))"
proof -
  have a: "length M = length students \<and>
      (\<forall>i<length students. length (M ! i) = length topics \<and>
         (\<forall>j<length topics. \<exists>c. (i, j, c) \<in> set preferences \<and> np_float np c = Inr (M ! i ! j)))"
    if "build_cost_matrix np students topics preferences = Inr M" for M
    using build_cost_matrix_Inr [OF assms that] matrix_cell_in_preferences [OF assms that]
    by blast
  have b: "\<exists>(s, t, c)\<in>set preferences. np_float np c = Inl e"
    if "build_cost_matrix np students topics preferences = Inl e" for e
    using that by (rule build_cost_matrix_Inl [OF assms])
  from preferences_keys [OF assms] a b show ?thesis by blast
qed

theorem preferences_cover_every_pair_once_witness:
  "parse_csv 3 example_table =
     Inr ([''s1'', ''s2'', ''s3''], [''A'', ''B'', ''C''], example_preferences) \<and>
   distinct (map (\<lambda>(s, t, c). (s, t)) example_preferences) \<and>
   length example_preferences = 3 * 3 \<and>
   build_cost_matrix small_floats [''s1'', ''s2'', ''s3''] [''A'', ''B'', ''C'']
     example_preferences = Inr [[1, 2, 3], [4, 1, 4], [2, 5, 1]]"
  using preferences_cover_every_pair_once [OF parse_example, of small_floats]
    parse_example example_cost_matrix
  by simp

text \<open>
  Claim C5, as stated: with fewer topics than students the program fails with an error.
  Neither the loader nor the wrapper compares the two numbers, and the matching routine
  of \<^verbatim>\<open>scipy\<close> takes a matrix with more rows than columns and matches as many rows as
  there are columns. For two students and one topic it returns one pair; the program
  then prints one assignment line and no error, and the second student has no topic.
\<close>

theorem fewer_topics_counterexample:
  "run small_floats (\<lambda>M. Inr [(0, 0)]) 3 [[''X'', ''A''], [''s1'', ''1''], [''s2'', ''1'']] =
     Inr (Report 1 (1 / 2) False [(''s1'', ''A'')]) \<and>
   length [''A''] < length [''s1'', ''s2'']"
  by (simp add: run_def solve_assignment_problem_def build_cost_matrix_def zeros_def
      numeral_2_eq_2 eval_defs)

text \<open>
  Claim C5, amended. The program makes no check of the number of topics against the
  number of students. For every accepted table, also one with fewer topics than
  students: a cost that cannot be converted to a float ends the program with the
  exception of the conversion, before the matching routine is called; an exception of
  the matching routine ends the program with that exception; and when the routine
  returns pairs with indices in range, the program prints the total, the average and
  one line for each returned pair, unless the printing of the total or the comparison
  of the average with the threshold raises. Pairs with distinct topic indices are fewer
  than the students when the topics are.
\<close>

theorem topic_count_not_checked:
  assumes "parse_csv pen table = Inr (students, topics, preferences)"
  shows "(build_cost_matrix np students topics preferences = Inl e \<longrightarrow>
            run np solver pen table = Inl e) \<and>
         (build_cost_matrix np students topics preferences = Inr M \<and> solver M = Inl e \<longrightarrow>
            run np solver pen table = Inl e) \<and>
         (build_cost_matrix np students topics preferences = Inr M \<and> solver M = Inr pairs \<and>
          (\<forall>(r, c)\<in>set pairs. r < length students \<and> c < length topics) \<longrightarrow>
            run np solver pen table =
              (case format_d np (np_sum np (map (\<lambda>(r, c). M ! r ! c) pairs)) of
                 Inl e \<Rightarrow> Inl e
               | Inr printed \<Rightarrow>
                   (case np_greater np
                           (np_divide np (np_sum np (map (\<lambda>(r, c). M ! r ! c) pairs))
                              (length students))
                           pen of
                      Inl e \<Rightarrow> Inl e
                    | Inr warn \<Rightarrow>
                        Inr (Report printed
                               (np_divide np (np_sum np (map (\<lambda>(r, c). M ! r ! c) pairs))
                                  (length students))
                               warn
                               (map (\<lambda>(r, c). (students ! r, topics ! c)) pairs)))) \<and>
            (distinct (map snd pairs) \<and> length topics < length students \<longrightarrow>
               length pairs < length students))"
proof (intro conjI impI)
  assume "build_cost_matrix np students topics preferences = Inl e"
  with assms show "run np solver pen table = Inl e"
    by (simp add: run_def solve_assignment_problem_def)
next
  assume "build_cost_matrix np students topics preferences = Inr M \<and> solver M = Inl e"
  with assms show "run np solver pen table = Inl e"
    by (simp add: run_def solve_assignment_problem_def)
next
  assume h: "build_cost_matrix np students topics preferences = Inr M \<and> solver M = Inr pairs \<and>
          (\<forall>(r, c)\<in>set pairs. r < length students \<and> c < length topics)"
  then have b: "build_cost_matrix np students topics preferences = Inr M"
    and s: "solver M = Inr pairs"
    and r: "\<forall>(r, c)\<in>set pairs. r < length students \<and> c < length topics" by simp_all
  show "run np solver pen table =
              (case format_d np (np_sum np (map (\<lambda>(r, c). M ! r ! c) pairs)) of
                 Inl e \<Rightarrow> Inl e
               | Inr printed \<Rightarrow>
                   (case np_greater np
                           (np_divide np (np_sum np (map (\<lambda>(r, c). M ! r ! c) pairs))
                              (length students))
                           pen of
                      Inl e \<Rightarrow> Inl e
                    | Inr warn \<Rightarrow>
                        Inr (Report printed
                               (np_divide np (np_sum np (map (\<lambda>(r, c). M ! r ! c) pairs))
                                  (length students))
                               warn
                               (map (\<lambda>(r, c). (students ! r, topics ! c)) pairs))))"
    using assms b s r by (rule run_accepted)
  assume d: "distinct (map snd pairs) \<and> length topics < length students"
  from r have "set (map snd pairs) \<subseteq> {0..<length topics}" by auto
  then have "card (set (map snd pairs)) \<le> card {0..<length topics}"
    by (intro card_mono) simp_all
  moreover from d distinct_card [of "map snd pairs"]
  have "card (set (map snd pairs)) = length pairs" by simp
  ultimately show "length pairs < length students" using d by simp
qed

theorem topic_count_not_checked_witness:
  "parse_csv 3 [[''X'', ''A''], [''s1'', ''1''], [''s2'', ''1'']] =
     Inr ([''s1'', ''s2''], [''A''], [(0, 0, 1), (1, 0, 1)]) \<and>
   build_cost_matrix small_floats [''s1'', ''s2''] [''A''] [(0, 0, 1), (1, 0, 1)] =
     Inr [[1], [1]] \<and>
   run small_floats (\<lambda>M. Inr [(0, 0)]) 3 [[''X'', ''A''], [''s1'', ''1''], [''s2'', ''1'']] =
     Inr (Report 1 (1 / 2) False [(''s1'', ''A'')]) \<and>
   length [(0::nat, 0::nat)] < length [''s1'', ''s2'']"
proof -
  have a: "parse_csv 3 [[''X'', ''A''], [''s1'', ''1''], [''s2'', ''1'']] =
     Inr ([''s1'', ''s2''], [''A''], [(0, 0, 1), (1, 0, 1)])"
    by (simp add: eval_defs)
  have b: "build_cost_matrix small_floats [''s1'', ''s2''] [''A''] [(0, 0, 1), (1, 0, 1)] =
     Inr [[1], [1]]"
    by (simp add: build_cost_matrix_def zeros_def numeral_2_eq_2)
  from topic_count_not_checked [OF a, where np = small_floats and M = "[[1], [1]]"
      and solver = "\<lambda>M. Inr [(0, 0)]" and pairs = "[(0, 0)]"] b
  have "run small_floats (\<lambda>M. Inr [(0, 0)]) 3 [[''X'', ''A''], [''s1'', ''1''], [''s2'', ''1'']] =
     Inr (Report 1 (1 / 2) False [(''s1'', ''A'')])"
    by simp
  with a b show ?thesis by simp
qed

text \<open>
  Claim C6, as stated: a data row whose length differs from the header's makes loading
  fail. The loader never compares lengths; a row that is longer than the header is read
  up to the last topic column and accepted.
\<close>

theorem malformed_table_counterexample:
  "parse_csv 3 [[''X'', ''A''], [''s1'', ''1'', ''junk'']] = Inr ([''s1''], [''A''], [(0, 0, 1)]) \<and>
   length [''s1'', ''1'', ''junk''] \<noteq> length [''X'', ''A'']"
  by (simp add: eval_defs)

text \<open>
  Claim C6, amended. Loading fails, and the wrapper is never entered, for the empty file
  (\<^verbatim>\<open>IndexError\<close>), for a table with an empty data row (\<^verbatim>\<open>IndexError\<close>), for a table
  with a data row shorter than the header, and for a table with a non-empty cell in a
  topic column that \<^verbatim>\<open>int\<close> rejects. An empty data row anywhere in the table raises
  while the student column is built, before any cell is read. When no data row is empty
  the cells are read row by row and from left to right, and a cell that the loader
  reaches raises \<^verbatim>\<open>IndexError\<close> when it is missing and the \<^verbatim>\<open>ValueError\<close> of \<^verbatim>\<open>int\<close> when
  it is not an integer string. Cells beyond the last topic column are ignored.
\<close>

theorem malformed_table_rejected:
  "run np solver pen [] = Inl IndexError \<and>
   ((\<exists>row\<in>set rows. length row < length header) \<longrightarrow> isl (parse_csv pen (header # rows))) \<and>
   ((\<exists>row\<in>set rows. \<exists>c\<in>set (specified_cells (length (tl header)) row). py_int c = None)
      \<longrightarrow> isl (parse_csv pen (header # rows))) \<and>
   ([] \<in> set rows \<longrightarrow> parse_csv pen (header # rows) = Inl IndexError) \<and>
   (first_column rows = Inr students \<and> i < length rows \<and> j < length (tl header) \<and>
    read_students (tl header) (take i (zip students rows)) = Inr sts \<and>
    read_topics (tl header) (students ! i) (rows ! i) [0..<j] ([], []) = Inr st
    \<longrightarrow>
      (length (rows ! i) \<le> Suc j \<longrightarrow> parse_csv pen (header # rows) = Inl IndexError) \<and>
      (Suc j < length (rows ! i) \<and> rows ! i ! Suc j \<noteq> [] \<and> py_int (rows ! i ! Suc j) = None
         \<longrightarrow> parse_csv pen (header # rows) =
               Inl (ValueError (InvalidLiteral (rows ! i ! Suc j))))) \<and>
   (\<forall>e. parse_csv pen table = Inl e \<longrightarrow> run np solver pen table = Inl e) \<and>
   (isl (parse_csv pen (header # map (take (Suc (length (tl header)))) rows)) \<longleftrightarrow>
      isl (parse_csv pen (header # rows)))"
proof -
  let ?m = "length (tl header)"
  have a: "run np solver pen [] = Inl IndexError"
    by (simp add: run_def parse_csv_def)
  have b: "isl (parse_csv pen (header # rows))" if "\<exists>row\<in>set rows. length row < length header"
    unfolding isl_parse_csv_iff using that short_row_not_accepted by blast
  have c: "isl (parse_csv pen (header # rows))"
    if "\<exists>row\<in>set rows. \<exists>c\<in>set (specified_cells ?m row). py_int c = None"
    unfolding isl_parse_csv_iff using that bad_literal_not_accepted by blast
  have d: "parse_csv pen (header # rows) = Inl IndexError" if "[] \<in> set rows"
    using that by (rule empty_row_IndexError)
  have e: "(length (rows ! i) \<le> Suc j \<longrightarrow> parse_csv pen (header # rows) = Inl IndexError) \<and>
      (Suc j < length (rows ! i) \<and> rows ! i ! Suc j \<noteq> [] \<and> py_int (rows ! i ! Suc j) = None
         \<longrightarrow> parse_csv pen (header # rows) =
               Inl (ValueError (InvalidLiteral (rows ! i ! Suc j))))"
    if r: "first_column rows = Inr students \<and> i < length rows \<and> j < length (tl header) \<and>
      read_students (tl header) (take i (zip students rows)) = Inr sts \<and>
      read_topics (tl header) (students ! i) (rows ! i) [0..<j] ([], []) = Inr st"
  proof -
    from r have fc: "first_column rows = Inr students" and i: "i < length rows"
      and j: "j < length (tl header)"
      and prev: "read_students (tl header) (take i (zip students rows)) = Inr sts"
      and row: "read_topics (tl header) (students ! i) (rows ! i) [0..<j] ([], []) = Inr st"
      by simp_all
    note at = parse_csv_fails_at_cell [OF fc i j prev row]
    have "parse_csv pen (header # rows) = Inl IndexError" if "length (rows ! i) \<le> Suc j"
    proof -
      from that have "read_cell (tl header) (students ! i) (rows ! i) j st = Inl IndexError"
        by (cases st) (simp add: read_cell_def)
      then show ?thesis by (rule at)
    qed
    moreover have "parse_csv pen (header # rows) =
        Inl (ValueError (InvalidLiteral (rows ! i ! Suc j)))"
      if "Suc j < length (rows ! i) \<and> rows ! i ! Suc j \<noteq> [] \<and> py_int (rows ! i ! Suc j) = None"
    proof -
      from that have "read_cell (tl header) (students ! i) (rows ! i) j st =
          Inl (ValueError (InvalidLiteral (rows ! i ! Suc j)))"
        by (cases st) (simp add: read_cell_def)
      then show ?thesis by (rule at)
    qed
    ultimately show ?thesis by blast
  qed
  have f: "\<forall>e. parse_csv pen table = Inl e \<longrightarrow> run np solver pen table = Inl e"
    by (simp add: run_Inl)
  have g: "isl (parse_csv pen (header # map (take (Suc ?m)) rows)) \<longleftrightarrow>
      isl (parse_csv pen (header # rows))"
    unfolding isl_parse_csv_iff by (simp add: row_accepted_take)
  from a b c d e f g show ?thesis by blast
qed

theorem malformed_table_rejected_witness:
  "parse_csv 3 [[''X'', ''A'', ''B''], [''s1'', ''1'']] = Inl IndexError \<and>
   parse_csv 3 [[''X'', ''A'', ''B''], [''s1'', ''1'', ''x'']] =
     Inl (ValueError (InvalidLiteral ''x'')) \<and>
   parse_csv 3 [[''X'', ''A''], [''s1'', [CHR ''1'', CHR 0x1C]]] =
     Inl (ValueError (InvalidLiteral [CHR ''1'', CHR 0x1C])) \<and>
   parse_csv 3 [[''X'', ''A''], [''s1'', ''x''], []] = Inl IndexError \<and>
   run small_floats (\<lambda>M. Inr []) 3 [[''X'', ''A''], [''s1'', ''x''], []] = Inl IndexError \<and>
   run small_floats (\<lambda>M. Inr []) 3 [] = Inl IndexError"
proof -
  have short: "parse_csv 3 [[''X'', ''A'', ''B''], [''s1'', ''1'']] = Inl IndexError"
    using malformed_table_rejected
      [where i = 0 and j = 1 and pen = 3 and header = "[''X'', ''A'', ''B'']"
         and rows = "[[''s1'', ''1'']]" and students = "[''s1'']"
         and sts = "[]" and st = "([], [(0, 1)])" and np = small_floats
         and solver = "\<lambda>M. Inr []" and table = "[]"]
    by (simp add: read_cell_def py_int_def strip_def is_space_def unsigned_int_def
        is_digit_def digit_val_def)
  have literal: "parse_csv 3 [[''X'', ''A'', ''B''], [''s1'', ''1'', ''x'']] =
     Inl (ValueError (InvalidLiteral ''x''))"
    using malformed_table_rejected
      [where i = 0 and j = 1 and pen = 3 and header = "[''X'', ''A'', ''B'']"
         and rows = "[[''s1'', ''1'', ''x'']]" and students = "[''s1'']"
         and sts = "[]" and st = "([], [(0, 1)])" and np = small_floats
         and solver = "\<lambda>M. Inr []" and table = "[]"]
    by (simp add: read_cell_def py_int_def strip_def is_space_def unsigned_int_def
        is_digit_def digit_val_def)
  have padded: "parse_csv 3 [[''X'', ''A''], [''s1'', [CHR ''1'', CHR 0x1C]]] =
     Inl (ValueError (InvalidLiteral [CHR ''1'', CHR 0x1C]))"
    using malformed_table_rejected
      [where i = 0 and j = 0 and pen = 3 and header = "[''X'', ''A'']"
         and rows = "[[''s1'', [CHR ''1'', CHR 0x1C]]]" and students = "[''s1'']"
         and sts = "[]" and st = "([], [])" and np = small_floats
         and solver = "\<lambda>M. Inr []" and table = "[]"]
    by (simp add: py_int_def strip_def is_space_def unsigned_int_def
        is_digit_def digit_val_def)
  have empty_row: "parse_csv 3 [[''X'', ''A''], [''s1'', ''x''], []] = Inl IndexError"
    using malformed_table_rejected
      [where pen = 3 and header = "[''X'', ''A'']" and rows = "[[''s1'', ''x''], []]"
         and np = small_floats and solver = "\<lambda>M. Inr []" and table = "[]"]
    by simp
  have before: "run small_floats (\<lambda>M. Inr []) 3 [[''X'', ''A''], [''s1'', ''x''], []] =
      Inl IndexError"
    using malformed_table_rejected
      [where pen = 3 and table = "[[''X'', ''A''], [''s1'', ''x''], []]"
         and np = small_floats and solver = "\<lambda>M. Inr []"] empty_row
    by simp
  have empty_file: "run small_floats (\<lambda>M. Inr []) 3 [] = Inl IndexError"
    using malformed_table_rejected [where np = small_floats and solver = "\<lambda>M. Inr []" and pen = 3]
    by simp
  from short literal padded empty_row before empty_file show ?thesis by simp
qed



text \<open>
  Claim C8. Whether a table is accepted depends, row by row, only on the multiset of the
  values in the specified cells: two tables under the same header whose rows have the
  same lengths and carry the same multisets of specified values (in whatever columns)
  are both accepted or both rejected.
\<close>

theorem acceptance_is_value_based:
  assumes "list_all2 (\<lambda>row row'. length row = length row' \<and>
             mset (map py_int (specified_cells (length (tl header)) row)) =
             mset (map py_int (specified_cells (length (tl header)) row'))) rows rows'"
  shows "isl (parse_csv pen (header # rows)) \<longleftrightarrow> isl (parse_csv pen (header # rows'))"
proof -
  let ?m = "length (tl header)"
  from assms have len: "length rows = length rows'"
    by (rule list_all2_lengthD)
  have "row_accepted ?m (rows ! i) \<longleftrightarrow> row_accepted ?m (rows' ! i)" if "i < length rows" for i
  proof -
    from list_all2_nthD [OF assms that]
    show ?thesis by (intro row_accepted_cong) simp_all
  qed
  then have "(\<forall>row\<in>set rows. row_accepted ?m row) \<longleftrightarrow> (\<forall>row\<in>set rows'. row_accepted ?m row)"
    unfolding all_set_conv_all_nth len [symmetric] by simp
  then show ?thesis unfolding isl_parse_csv_iff by simp
qed

theorem acceptance_is_value_based_witness:
  "\<not> isl (parse_csv 3 [[''X'', ''A'', ''B'', ''C''], [''s1'', ''2'', '''', ''1'']]) \<and>
   \<not> isl (parse_csv 3 [[''X'', ''A'', ''B'', ''C''], [''s1'', '''', ''1'', ''2'']])"
proof -
  have "list_all2 (\<lambda>row row'. length row = length row' \<and>
             mset (map py_int (specified_cells (length (tl [''X'', ''A'', ''B'', ''C''])) row)) =
             mset (map py_int (specified_cells (length (tl [''X'', ''A'', ''B'', ''C''])) row')))
          [[''s1'', ''2'', '''', ''1'']] [[''s1'', '''', ''1'', ''2'']]"
    by (simp add: specified_cells_def py_int_def strip_def is_space_def unsigned_int_def
        is_digit_def digit_val_def)
  from acceptance_is_value_based [OF this, of 3] show ?thesis
    by (simp add: eval_defs)
qed

text \<open>
  Claim C9, as stated: every emitted cost is at least one, for every threshold. The
  command line accepts any integer as threshold, and with the threshold \<open>- 1\<close> a
  student without preferences gets the cost zero.
\<close>

theorem costs_positive_counterexample:
  "parse_csv (- 1) [[''X'', ''A''], [''s1'', '''']] = Inr ([''s1''], [''A''], [(0, 0, 0)]) \<and>
   \<not> (1::int) \<le> 0"
  by (simp add: eval_defs)

text \<open>
  Claim C9, amended: for a threshold that is not negative, every cost the loader emits,
  specified or defaulted, is at least one.
\<close>

theorem costs_positive_for_nonnegative_threshold:
  assumes "parse_csv pen fields = Inr (students, topics, preferences)"
    and "0 \<le> pen" and "(s, t, c) \<in> set preferences"
  shows "1 \<le> c"
proof -
  from parse_csv_Inr_Cons [OF assms(1)] obtain header rows where f: "fields = header # rows"
    by blast
  note p = assms(1) [unfolded f]
  from assms(3) have s: "s < length rows" and t: "t < length topics"
    and c: "c = (if rows ! s ! Suc t = [] then
            (if specified_values (length topics) (rows ! s) = [] then pen + 1
             else Max (set (specified_values (length topics) (rows ! s))) + pen)
          else the (py_int (rows ! s ! Suc t)))"
    unfolding mem_preferences [OF p] by simp_all
  have acc: "row_accepted (length topics) (rows ! s)"
    by (rule parse_csv_accepted_row [OF p s])
  then have len: "length topics < length (rows ! s)" by (simp add: row_accepted_def)
  show ?thesis
  proof (cases "rows ! s ! Suc t = []")
    case False
    from cell_value_mem [OF len t False] specified_values_pos [OF acc] c False
    show ?thesis by simp
  next
    case True
    show ?thesis
    proof (cases "specified_values (length topics) (rows ! s) = []")
      case True
      with c \<open>rows ! s ! Suc t = []\<close> assms(2) show ?thesis by simp
    next
      case False
      then have "Max (set (specified_values (length topics) (rows ! s)))
                   \<in> set (specified_values (length topics) (rows ! s))"
        by (intro Max_in) simp_all
      from specified_values_pos [OF acc this] c True False assms(2) show ?thesis by simp
    qed
  qed
qed

theorem costs_positive_for_nonnegative_threshold_witness:
  "parse_csv 3 example_table =
     Inr ([''s1'', ''s2'', ''s3''], [''A'', ''B'', ''C''], example_preferences) \<and>
   (0::int) \<le> 3 \<and> (1, 0, 4) \<in> set example_preferences \<and> (1::int) \<le> 4"
  using costs_positive_for_nonnegative_threshold [OF parse_example, of 1 0 4] parse_example
  by simp

text \<open>
  Claim C10. With a threshold of at least one, the cost a student gets on a topic left
  empty is strictly greater than each cost the same student specified.
\<close>

theorem default_exceeds_specified:
  assumes "parse_csv pen (header # rows) = Inr (students, topics, preferences)"
    and "1 \<le> pen" and "i < length rows"
    and "j < length topics" and "rows ! i ! Suc j = []"
    and "k < length topics" and "rows ! i ! Suc k \<noteq> []"
    and "(i, j, c) \<in> set preferences" and "(i, k, c') \<in> set preferences"
  shows "c' < c"
proof -
  have acc: "row_accepted (length topics) (rows ! i)"
    by (rule parse_csv_accepted_row [OF assms(1,3)])
  then have len: "length topics < length (rows ! i)" by (simp add: row_accepted_def)
  have mem: "the (py_int (rows ! i ! Suc k)) \<in> set (specified_values (length topics) (rows ! i))"
    by (rule cell_value_mem [OF len assms(6,7)])
  then have ne: "specified_values (length topics) (rows ! i) \<noteq> []" by auto
  from assms(8) assms(5) ne
  have c: "c = Max (set (specified_values (length topics) (rows ! i))) + pen"
    unfolding mem_preferences [OF assms(1)] by simp
  from assms(9) assms(7) have c': "c' = the (py_int (rows ! i ! Suc k))"
    unfolding mem_preferences [OF assms(1)] by simp
  have "c' \<le> Max (set (specified_values (length topics) (rows ! i)))"
    unfolding c' using mem by (intro Max_ge) simp_all
  with c assms(2) show ?thesis by simp
qed

theorem default_exceeds_specified_witness:
  "parse_csv 3 example_table =
     Inr ([''s1'', ''s2'', ''s3''], [''A'', ''B'', ''C''], example_preferences) \<and>
   (1, 0, 4) \<in> set example_preferences \<and> (1, 1, 1) \<in> set example_preferences \<and>
   (1::int) < 4"
  using default_exceeds_specified [OF parse_example, of 1 0 1 4 1] parse_example
  by simp

end
